theory Spec2Isabelle
  imports Main "HOL-Library.Sublist"
begin

section \<open>The bundle mutation orchestrator of \<^verbatim>\<open>cyan/tbhtypes/app_bundle.py\<close>\<close>

text \<open>
  The class \<^verbatim>\<open>AppBundle\<close> drives three collaborators that live in other modules: the
  property-list reader (\<^verbatim>\<open>Plist\<close>), the binary engine (\<^verbatim>\<open>Executable\<close>,
  \<^verbatim>\<open>MainExecutable\<close>) and the file system (\<^verbatim>\<open>os\<close>, \<^verbatim>\<open>shutil\<close>, \<^verbatim>\<open>glob\<close>).
  The embedding keeps the methods of \<^verbatim>\<open>AppBundle\<close> as they are written and makes the
  collaborators explicit:
  \<^item> the file tree is an association list from path strings to node kinds, in directory
    scan order; paths are compared as written (no symbolic links, no \<^verbatim>\<open>.\<close>/\<^verbatim>\<open>..\<close> or
    doubled-slash aliases, no permission failures);
  \<^item> every call that changes a binary is appended, with its outcome, to a history; what a
    collaborator answers is a parameter (\<open>env\<close>) that may depend on that history;
    reading a metadata document, constructing an executable reference and asking whether
    an executable is encrypted are queries: they are answered from \<open>env\<close> and leave
    the world as it is;
  \<^item> every raise is a value \<open>Inl e\<close>; the world reached so far is returned with it, since
    an exception does not undo what was done before it;
  \<^item> \<^verbatim>\<open>print\<close> appends a line to \<open>out\<close>.
\<close>

subsection \<open>Errors\<close>

datatype error =
    NotADirectoryError
  | IsADirectoryError
  | FileNotFoundError
  | KeyError string
  | Failure string
  | SystemExit string

text \<open>\<^verbatim>\<open>except Exception\<close> catches every error above but \<^verbatim>\<open>SystemExit\<close>, which derives
  from \<^verbatim>\<open>BaseException\<close>.\<close>

fun is_Exception :: "error \<Rightarrow> bool" where
  "is_Exception (SystemExit _) = False"
| "is_Exception _ = True"

subsection \<open>Strings and paths\<close>

text \<open>\<^verbatim>\<open>s.endswith(suf)\<close> and \<^verbatim>\<open>sub in s\<close>.\<close>

definition endswith :: "string \<Rightarrow> string \<Rightarrow> bool" where
  "endswith s suf = suffix suf s"

definition str_in :: "string \<Rightarrow> string \<Rightarrow> bool" where
  "str_in sub s = sublist sub s"

text \<open>\<^verbatim>\<open>s.split(c)\<close>: the pieces between the separators, empty pieces kept.\<close>

fun split_on :: "char \<Rightarrow> string \<Rightarrow> string list" where
  "split_on c [] = [[]]"
| "split_on c (x # xs) =
     (if x = c then [] # split_on c xs
      else (case split_on c xs of [] \<Rightarrow> [[x]] | y # ys \<Rightarrow> (x # y) # ys))"

text \<open>\<^verbatim>\<open>os.path.basename\<close>: what follows the last slash.\<close>

definition basename :: "string \<Rightarrow> string" where
  "basename p = last (split_on (CHR ''/'') p)"

fun strip_prefix :: "string \<Rightarrow> string \<Rightarrow> string option" where
  "strip_prefix [] s = Some s"
| "strip_prefix (p # ps) [] = None"
| "strip_prefix (p # ps) (x # xs) = (if p = x then strip_prefix ps xs else None)"

text \<open>\<^verbatim>\<open>sep.join(xs)\<close>.\<close>

fun join :: "string \<Rightarrow> string list \<Rightarrow> string" where
  "join sep [] = []"
| "join sep [x] = x"
| "join sep (x # y # ys) = x @ sep @ join sep (y # ys)"

text \<open>\<^verbatim>\<open>str(n)\<close> for a count.\<close>

definition digit :: "nat \<Rightarrow> char" where
  "digit d = char_of (48 + d)"

fun str_nat :: "nat \<Rightarrow> string" where
  "str_nat n = (if n < 10 then [digit n] else str_nat (n div 10) @ [digit (n mod 10)])"

declare str_nat.simps [simp del]

subsection \<open>The file tree\<close>

datatype node = File | Dir

type_synonym tree = "(string \<times> node) list"

text \<open>An entry lies under \<open>p\<close> when it is \<open>p\<close> itself or its path continues \<open>p\<close> after a
  slash.\<close>

definition under :: "string \<Rightarrow> string \<Rightarrow> bool" where
  "under p k = (k = p \<or> prefix (p @ ''/'') k)"

definition path_exists :: "tree \<Rightarrow> string \<Rightarrow> bool" where
  "path_exists t p = (map_of t p \<noteq> None)"

text \<open>\<^verbatim>\<open>shutil.rmtree\<close> deletes a directory with everything under it and raises
  \<^verbatim>\<open>NotADirectoryError\<close> on a plain file; \<^verbatim>\<open>os.remove\<close> deletes a plain file.\<close>

definition rmtree :: "string \<Rightarrow> tree \<Rightarrow> error + tree" where
  "rmtree p t =
     (case map_of t p of
        None \<Rightarrow> Inl FileNotFoundError
      | Some File \<Rightarrow> Inl NotADirectoryError
      | Some Dir \<Rightarrow> Inr (filter (\<lambda>(k, n). \<not> under p k) t))"

definition os_remove :: "string \<Rightarrow> tree \<Rightarrow> error + tree" where
  "os_remove p t =
     (case map_of t p of
        None \<Rightarrow> Inl FileNotFoundError
      | Some Dir \<Rightarrow> Inl IsADirectoryError
      | Some File \<Rightarrow> Inr (filter (\<lambda>(k, n). k \<noteq> p) t))"

text \<open>The patterns handed to \<^verbatim>\<open>glob\<close>. A star matches one visible name (not empty, not
  starting with a dot, no slash); \<^verbatim>\<open>**\<close> with \<^verbatim>\<open>recursive=True\<close> matches any number of
  visible directory names. The root is taken literally. Results come in scan order.\<close>

definition visible :: "string \<Rightarrow> bool" where
  "visible name = (case name of [] \<Rightarrow> False | c # _ \<Rightarrow> c \<noteq> CHR ''.'')"

definition match_recursive :: "string \<Rightarrow> string \<Rightarrow> string \<Rightarrow> bool" where
  "match_recursive root suf k =
     (case strip_prefix (root @ ''/'') k of
        None \<Rightarrow> False
      | Some rest \<Rightarrow>
          (let cs = split_on (CHR ''/'') rest
           in list_all visible cs \<and> endswith (last cs) suf))"

definition glob_recursive :: "string \<Rightarrow> string \<Rightarrow> tree \<Rightarrow> string list" where
  "glob_recursive root suf t = filter (match_recursive root suf) (map fst t)"

definition match_two_level :: "string \<Rightarrow> string \<Rightarrow> string \<Rightarrow> bool" where
  "match_two_level root suf k =
     (case strip_prefix (root @ ''/'') k of
        None \<Rightarrow> False
      | Some rest \<Rightarrow>
          (case split_on (CHR ''/'') rest of
             [x, y] \<Rightarrow> visible x \<and> visible y \<and> endswith y suf
           | _ \<Rightarrow> False))"

definition glob_two_level :: "string \<Rightarrow> string \<Rightarrow> tree \<Rightarrow> string list" where
  "glob_two_level root suf t = filter (match_two_level root suf) (map fst t)"

definition match_one_level :: "string \<Rightarrow> string \<Rightarrow> string \<Rightarrow> bool" where
  "match_one_level dir suf k =
     (case strip_prefix (dir @ ''/'') k of
        None \<Rightarrow> False
      | Some rest \<Rightarrow>
          (case split_on (CHR ''/'') rest of
             [y] \<Rightarrow> visible y \<and> endswith y suf
           | _ \<Rightarrow> False))"

definition glob_one_level :: "string \<Rightarrow> string \<Rightarrow> tree \<Rightarrow> string list" where
  "glob_one_level dir suf t = filter (match_one_level dir suf) (map fst t)"

subsection \<open>The collaborators\<close>

datatype func = fakesign | thin

text \<open>The calls of the binary engine that change an executable. Each carries the path of
  the executable it is made on.\<close>

datatype call =
    Capability func string
  | WriteEntitlements string string
  | RemoveSignature string
  | InjFunc string string
  | InjWrite string
  | SignWithEntitlements string string
  | Inject string "(string \<times> string) list" string bool

type_synonym history = "(call \<times> (error + bool)) list"

type_synonym plist = "string \<Rightarrow> string option"

record env =
  read_plist :: "string \<Rightarrow> string option \<Rightarrow> history \<Rightarrow> error + plist"
  init_main_executable :: "string \<Rightarrow> string \<Rightarrow> history \<Rightarrow> error option"
  init_executable :: "string \<Rightarrow> history \<Rightarrow> error option"
  is_encrypted :: "string \<Rightarrow> history \<Rightarrow> error + bool"
  has_inj :: "string \<Rightarrow> history \<Rightarrow> bool"
  perform :: "call \<Rightarrow> history \<Rightarrow> error + bool"

record world =
  fs :: tree
  trace :: history
  out :: "string list"

type_synonym 'a action = "world \<Rightarrow> (error + 'a) \<times> world"

definition print_line :: "string \<Rightarrow> world \<Rightarrow> world" where
  "print_line s w = w\<lparr>out := out w @ [s]\<rparr>"

definition do_call :: "env \<Rightarrow> call \<Rightarrow> bool action" where
  "do_call env c w =
     (let r = perform env c (trace w) in (r, w\<lparr>trace := trace w @ [(c, r)]\<rparr>))"

text \<open>Sequencing: the second action runs only when the first did not raise.\<close>

definition and_then :: "'a action \<Rightarrow> ('a \<Rightarrow> 'b action) \<Rightarrow> 'b action" where
  "and_then m k w = (case m w of (Inl e, w') \<Rightarrow> (Inl e, w') | (Inr x, w') \<Rightarrow> k x w')"

subsection \<open>\<^verbatim>\<open>AppBundle\<close>\<close>

text \<open>Modelled from the spec: the class \<^verbatim>\<open>Executable\<close> is not among the sources, so its
  attribute \<^verbatim>\<open>bn\<close> is taken from the specification, which has the removed extensions
  reported by their declared executable names.\<close>

record executable =
  exe_path :: string
  bn :: string

record app_bundle =
  path :: string
  plist :: plist
  executable :: executable
  cached_executables :: "string list option"

definition new_app_bundle :: "env \<Rightarrow> string \<Rightarrow> history \<Rightarrow> error + app_bundle" where
  "new_app_bundle env p h =
     (case read_plist env (p @ ''/Info.plist'') (Some p) h of
        Inl e \<Rightarrow> Inl e
      | Inr pl \<Rightarrow>
          (case pl ''CFBundleExecutable'' of
             None \<Rightarrow> Inl (KeyError ''CFBundleExecutable'')
           | Some name \<Rightarrow>
               (case init_main_executable env (p @ ''/'' @ name) p h of
                  Some e \<Rightarrow> Inl e
                | None \<Rightarrow>
                    Inr \<lparr>path = p, plist = pl,
                         executable = \<lparr>exe_path = p @ ''/'' @ name, bn = name\<rparr>,
                         cached_executables = None\<rparr>)))"

subsubsection \<open>\<^verbatim>\<open>remove\<close>\<close>

definition resolve_name :: "string \<Rightarrow> string \<Rightarrow> string" where
  "resolve_name root name = (if str_in root name then name else root @ ''/'' @ name)"

fun remove_loop :: "string \<Rightarrow> string list \<Rightarrow> bool \<Rightarrow> tree \<Rightarrow> (error + bool) \<times> tree" where
  "remove_loop root [] existed t = (Inr existed, t)"
| "remove_loop root (name # names) existed t =
     (let p = resolve_name root name in
      if \<not> path_exists t p then remove_loop root names existed t
      else
        (case rmtree p t of
           Inr t' \<Rightarrow> remove_loop root names True t'
         | Inl NotADirectoryError \<Rightarrow>
             (case os_remove p t of
                Inr t' \<Rightarrow> remove_loop root names True t'
              | Inl e \<Rightarrow> (Inl e, t))
         | Inl e \<Rightarrow> (Inl e, t)))"

definition remove :: "app_bundle \<Rightarrow> string list \<Rightarrow> bool action" where
  "remove b names w =
     (case remove_loop (path b) names False (fs w) of (r, t) \<Rightarrow> (r, w\<lparr>fs := t\<rparr>))"

definition remove_watch_apps :: "app_bundle \<Rightarrow> unit action" where
  "remove_watch_apps b w =
     (case remove b [''Watch'', ''WatchKit'', ''com.apple.WatchPlaceholder''] w of
        (Inl e, w') \<Rightarrow> (Inl e, w')
      | (Inr existed, w') \<Rightarrow>
          (Inr (), print_line (if existed then ''[*] removed watch app''
                               else ''[?] watch app not present'') w'))"

definition remove_all_extensions :: "app_bundle \<Rightarrow> unit action" where
  "remove_all_extensions b w =
     (case remove b [''Extensions'', ''PlugIns''] w of
        (Inl e, w') \<Rightarrow> (Inl e, w')
      | (Inr existed, w') \<Rightarrow>
          (Inr (), print_line (if existed then ''[*] removed app extensions''
                               else ''[?] no app extensions'') w'))"

subsubsection \<open>Enumeration\<close>

definition get_executables :: "app_bundle \<Rightarrow> world \<Rightarrow> string list" where
  "get_executables b w =
     glob_recursive (path b) ''.dylib'' (fs w)
     @ glob_recursive (path b) ''.appex'' (fs w)
     @ glob_recursive (path b) ''.framework'' (fs w)"

definition get_all_appex :: "app_bundle \<Rightarrow> world \<Rightarrow> string list" where
  "get_all_appex b w =
     glob_one_level (path b @ ''/Extensions'') ''.appex'' (fs w)
     @ glob_one_level (path b @ ''/PlugIns'') ''.appex'' (fs w)"

subsubsection \<open>\<^verbatim>\<open>mass_operate\<close>\<close>

text \<open>\<^verbatim>\<open>getattr(Executable(p), func)()\<close>: the constructor, then the capability.\<close>

definition executable_call :: "env \<Rightarrow> func \<Rightarrow> string \<Rightarrow> bool action" where
  "executable_call env f p w =
     (case init_executable env p (trace w) of
        Some e \<Rightarrow> (Inl e, w)
      | None \<Rightarrow> do_call env (Capability f p) w)"

definition artifact_call :: "env \<Rightarrow> func \<Rightarrow> string \<Rightarrow> bool action" where
  "artifact_call env f ts w =
     (if endswith ts ''.dylib'' then executable_call env f ts w
      else
        (case read_plist env (ts @ ''/Info.plist'') None (trace w) of
           Inl e \<Rightarrow> (Inl e, w)
         | Inr pl \<Rightarrow>
             (case pl ''CFBundleExecutable'' of
                None \<Rightarrow> (Inl (KeyError ''CFBundleExecutable''), w)
              | Some name \<Rightarrow> executable_call env f (ts @ ''/'' @ name) w)))"

fun sweep :: "env \<Rightarrow> func \<Rightarrow> string list \<Rightarrow> nat \<Rightarrow> nat action" where
  "sweep env f [] count w = (Inr count, w)"
| "sweep env f (ts # rest) count w =
     (case artifact_call env f ts w of
        (Inl e, w') \<Rightarrow> (Inl e, w')
      | (Inr call, w') \<Rightarrow> sweep env f rest (if call then count + 1 else count) w')"

definition esc :: char where
  "esc = char_of (27 :: nat)"

definition report :: "string \<Rightarrow> nat \<Rightarrow> string" where
  "report op count =
     ''[*] '' @ op @ '' '' @ [esc] @ ''[96m'' @ str_nat count @ [esc] @ ''[0m item(s)''"

text \<open>The bundle is returned with its cache, also when a collaborator raises: the
  assignment to \<^verbatim>\<open>self.cached_executables\<close> comes first.\<close>

definition mass_operate ::
  "env \<Rightarrow> string \<Rightarrow> func \<Rightarrow> app_bundle \<Rightarrow> world \<Rightarrow> (error + unit) \<times> app_bundle \<times> world" where
  "mass_operate env op f b w =
     (let b' = (case cached_executables b of
                  None \<Rightarrow> b\<lparr>cached_executables := Some (get_executables b w)\<rparr>
                | Some xs \<Rightarrow> b);
          cache = (case cached_executables b' of None \<Rightarrow> [] | Some xs \<Rightarrow> xs)
      in
        (case do_call env (Capability f (exe_path (executable b'))) w of
           (Inl e, w1) \<Rightarrow> (Inl e, b', w1)
         | (Inr ok, w1) \<Rightarrow>
             (case sweep env f cache (if ok then 1 else 0) w1 of
                (Inl e, w2) \<Rightarrow> (Inl e, b', w2)
              | (Inr count, w2) \<Rightarrow> (Inr (), b', print_line (report op count) w2))))"

definition fakesign_all ::
  "env \<Rightarrow> app_bundle \<Rightarrow> world \<Rightarrow> (error + unit) \<times> app_bundle \<times> world" where
  "fakesign_all env b w = mass_operate env ''fakesigned'' fakesign b w"

definition thin_all ::
  "env \<Rightarrow> app_bundle \<Rightarrow> world \<Rightarrow> (error + unit) \<times> app_bundle \<times> world" where
  "thin_all env b w = mass_operate env ''thinned'' thin b w"

subsubsection \<open>\<^verbatim>\<open>remove_encrypted_extensions\<close>\<close>

fun encrypted_loop ::
  "env \<Rightarrow> app_bundle \<Rightarrow> string list \<Rightarrow> string list \<Rightarrow> string list action" where
  "encrypted_loop env b [] removed w = (Inr removed, w)"
| "encrypted_loop env b (plugin # rest) removed w =
     (case new_app_bundle env plugin (trace w) of
        Inl e \<Rightarrow> (Inl e, w)
      | Inr bundle \<Rightarrow>
          (case is_encrypted env (exe_path (executable bundle)) (trace w) of
             Inl e \<Rightarrow> (Inl e, w)
           | Inr True \<Rightarrow>
               (case remove b [plugin] w of
                  (Inl e, w') \<Rightarrow> (Inl e, w')
                | (Inr existed, w') \<Rightarrow>
                    encrypted_loop env b rest (removed @ [bn (executable bundle)]) w')
           | Inr False \<Rightarrow> encrypted_loop env b rest removed w))"

definition removed_report :: "string list \<Rightarrow> string" where
  "removed_report removed =
     (if length removed = 0 then ''[?] no encrypted plugins''
      else ''[*] removed encrypted plugins: '' @ join '', '' removed)"

definition remove_encrypted_extensions :: "env \<Rightarrow> app_bundle \<Rightarrow> unit action" where
  "remove_encrypted_extensions env b w =
     (case encrypted_loop env b (glob_two_level (path b) ''.appex'' (fs w)) [] w of
        (Inl e, w') \<Rightarrow> (Inl e, w')
      | (Inr removed, w') \<Rightarrow> (Inr (), print_line (removed_report removed) w'))"

subsubsection \<open>\<^verbatim>\<open>_inject_into_extension\<close> and \<^verbatim>\<open>inject_all_extensions\<close>\<close>

definition reference :: "bool \<Rightarrow> string \<Rightarrow> string" where
  "reference inject_to_path dylib_name =
     (if inject_to_path then ''@executable_path/../../'' @ dylib_name
      else ''@rpath/'' @ dylib_name)"

fun inject_loop :: "env \<Rightarrow> string \<Rightarrow> bool \<Rightarrow> string list \<Rightarrow> unit action" where
  "inject_loop env exe inject_to_path [] w = (Inr (), w)"
| "inject_loop env exe inject_to_path (dylib_name # rest) w =
     (case do_call env (InjFunc exe (reference inject_to_path dylib_name)) w of
        (Inl e, w') \<Rightarrow> (Inl e, w')
      | (Inr r, w') \<Rightarrow> inject_loop env exe inject_to_path rest w')"

definition skip_unreadable :: "string \<Rightarrow> string" where
  "skip_unreadable appex_name =
     ''[?] skipping '' @ appex_name @ '': couldn'' @ [char_of (39 :: nat)] @ ''t read Info.plist''"

definition skip_encrypted :: "string \<Rightarrow> string" where
  "skip_encrypted appex_name = ''[?] skipping '' @ appex_name @ '': encrypted''"

definition injected_line :: "string \<Rightarrow> string" where
  "injected_line appex_name = ''[*] injected into extension: '' @ appex_name"

definition inject_into_extension ::
  "env \<Rightarrow> string \<Rightarrow> (string \<times> string) list \<Rightarrow> bool \<Rightarrow> unit action" where
  "inject_into_extension env appex_path tweaks inject_to_path w =
     (let appex_name = basename appex_path in
      case new_app_bundle env appex_path (trace w) of
        Inl e \<Rightarrow>
          if is_Exception e then (Inr (), print_line (skip_unreadable appex_name) w)
          else (Inl e, w)
      | Inr ext_bundle \<Rightarrow>
          (let exe = exe_path (executable ext_bundle) in
           case is_encrypted env exe (trace w) of
             Inl e \<Rightarrow> (Inl e, w)
           | Inr True \<Rightarrow> (Inr (), print_line (skip_encrypted appex_name) w)
           | Inr False \<Rightarrow>
               (let dylibs_to_inject = filter (\<lambda>(k, v). endswith k ''.dylib'') tweaks in
                if dylibs_to_inject = [] then (Inr (), w)
                else
                  (let ent_path = appex_path @ ''/cyan.entitlements'' in
                   and_then (do_call env (WriteEntitlements exe ent_path))
                     (\<lambda>has_entitlements.
                   and_then (do_call env (RemoveSignature exe))
                     (\<lambda>_.
                   and_then (inject_loop env exe inject_to_path (map fst dylibs_to_inject))
                     (\<lambda>_.
                   and_then (\<lambda>w3. if has_inj env exe (trace w3)
                                   then do_call env (InjWrite exe) w3 else (Inr True, w3))
                     (\<lambda>_.
                   and_then (\<lambda>w4. if has_entitlements
                                   then do_call env (SignWithEntitlements exe ent_path) w4
                                   else (Inr True, w4))
                     (\<lambda>_ w5. (Inr (), print_line (injected_line appex_name) w5)))))) w))))"

fun extensions_loop ::
  "env \<Rightarrow> string list \<Rightarrow> (string \<times> string) list \<Rightarrow> bool \<Rightarrow> unit action" where
  "extensions_loop env [] tweaks inject_to_path w = (Inr (), w)"
| "extensions_loop env (appex_path # rest) tweaks inject_to_path w =
     (case inject_into_extension env appex_path tweaks inject_to_path w of
        (Inl e, w') \<Rightarrow> (Inl e, w')
      | (Inr u, w') \<Rightarrow> extensions_loop env rest tweaks inject_to_path w')"

definition inject_all_extensions ::
  "env \<Rightarrow> app_bundle \<Rightarrow> (string \<times> string) list \<Rightarrow> string \<Rightarrow> bool \<Rightarrow> bool \<Rightarrow> unit action" where
  "inject_all_extensions env b tweaks tmpdir inject_to_path inject_all w =
     (case do_call env (Inject (exe_path (executable b)) tweaks tmpdir inject_to_path) w of
        (Inl e, w1) \<Rightarrow> (Inl e, w1)
      | (Inr r, w1) \<Rightarrow>
          if \<not> inject_all then (Inr (), w1)
          else
            (let appex_list = get_all_appex b w1 in
             if appex_list = [] then
               (Inr (), print_line ''[?] no app extensions found for -a'' w1)
             else extensions_loop env appex_list tweaks inject_to_path w1))"

subsection \<open>Notions of the specification, and concrete inputs\<close>

text \<open>\<^verbatim>\<open>os.path.isabs\<close>, and the resolution rule in the specification's words: an absolute
  name as it is, any other name below the package root.\<close>

definition isabs :: "string \<Rightarrow> bool" where
  "isabs name = (case name of [] \<Rightarrow> False | c # _ \<Rightarrow> c = CHR ''/'')"

definition spec_resolve :: "string \<Rightarrow> string \<Rightarrow> string" where
  "spec_resolve root name = (if isabs name then name else root @ ''/'' @ name)"

text \<open>Deleting one entry: nothing when it is absent, the whole subtree of a directory, the
  single entry of a file.\<close>

definition delete_entry :: "string \<Rightarrow> tree \<Rightarrow> tree" where
  "delete_entry p t =
     (case map_of t p of
        None \<Rightarrow> t
      | Some Dir \<Rightarrow> filter (\<lambda>(k, n). \<not> under p k) t
      | Some File \<Rightarrow> filter (\<lambda>(k, n). k \<noteq> p) t)"

definition bundle0 :: app_bundle where
  "bundle0 = \<lparr>path = ''/P/App.app'', plist = (\<lambda>k. None),
              executable = \<lparr>exe_path = ''/P/App.app/App'', bn = ''App''\<rparr>,
              cached_executables = None\<rparr>"

definition world0 :: world where
  "world0 = \<lparr>fs = [(''/P/App.app'', Dir), (''/P/App.app/Watch'', Dir),
                   (''/P/App.app/Watch/W.app'', Dir), (''/P/App.app/App'', File),
                   (''/tmp/x'', File)],
             trace = [], out = []\<rparr>"

text \<open>The executable an artifact stands for, by the resolution rule of \<^verbatim>\<open>mass_operate\<close>: a
  dynamic library is the executable, an extension or framework names it in its metadata
  document. \<open>None\<close> when the document cannot be read or lacks the key.\<close>

definition artifact_executable :: "env \<Rightarrow> string \<Rightarrow> history \<Rightarrow> string option" where
  "artifact_executable env ts h =
     (if endswith ts ''.dylib'' then Some ts
      else (case read_plist env (ts @ ''/Info.plist'') None h of
              Inl e \<Rightarrow> None
            | Inr pl \<Rightarrow> (case pl ''CFBundleExecutable'' of
                           None \<Rightarrow> None
                         | Some name \<Rightarrow> Some (ts @ ''/'' @ name))))"

text \<open>A recorded call that returned success.\<close>

definition succeeded :: "call \<times> (error + bool) \<Rightarrow> bool" where
  "succeeded ev = (snd ev = Inr True)"

text \<open>The enumeration a call of \<^verbatim>\<open>mass_operate\<close> works on: the cache when there is one,
  the tree as it is now otherwise.\<close>

definition cache_of :: "app_bundle \<Rightarrow> world \<Rightarrow> string list" where
  "cache_of b w = (case cached_executables b of None \<Rightarrow> get_executables b w | Some xs \<Rightarrow> xs)"

text \<open>Concrete collaborators and trees. In \<open>env1\<close> the main executable is already thin, so
  thinning it fails; every other call succeeds, and only the extension's metadata document
  is readable. In \<open>env2\<close> no nested metadata document is readable. \<open>world2\<close> is
  \<open>world1\<close> after a dynamic library was added.\<close>

definition env1 :: env where
  "env1 = \<lparr>read_plist = (\<lambda>p a h.
               if p = ''/P/App.app/PlugIns/E.appex/Info.plist''
               then Inr (\<lambda>k. if k = ''CFBundleExecutable'' then Some ''E'' else None)
               else Inl (Failure ''unreadable'')),
            init_main_executable = (\<lambda>p a h. None),
            init_executable = (\<lambda>p h. None),
            is_encrypted = (\<lambda>p h. Inr False),
            has_inj = (\<lambda>p h. True),
            perform = (\<lambda>c h. Inr (c \<noteq> Capability thin ''/P/App.app/App''))\<rparr>"

definition world1 :: world where
  "world1 = \<lparr>fs = [(''/P/App.app'', Dir), (''/P/App.app/App'', File),
                   (''/P/App.app/Info.plist'', File),
                   (''/P/App.app/Frameworks'', Dir),
                   (''/P/App.app/Frameworks/t.dylib'', File),
                   (''/P/App.app/PlugIns'', Dir),
                   (''/P/App.app/PlugIns/E.appex'', Dir),
                   (''/P/App.app/PlugIns/E.appex/Info.plist'', File),
                   (''/P/App.app/PlugIns/E.appex/E'', File)],
             trace = [], out = []\<rparr>"

definition cache1 :: "string list" where
  "cache1 = [''/P/App.app/Frameworks/t.dylib'', ''/P/App.app/PlugIns/E.appex'']"

definition trace1 :: history where
  "trace1 = [(Capability thin ''/P/App.app/App'', Inr False),
             (Capability thin ''/P/App.app/Frameworks/t.dylib'', Inr True),
             (Capability thin ''/P/App.app/PlugIns/E.appex/E'', Inr True)]"

definition world2 :: world where
  "world2 = world1\<lparr>fs := (''/P/App.app/new.dylib'', File) # fs world1\<rparr>"

definition env2 :: env where
  "env2 = env1\<lparr>read_plist := (\<lambda>p a h. Inl (Failure ''unreadable''))\<rparr>"

text \<open>The calls of one injection, in the order of the method: preserve the entitlements,
  strip the signature, one load command per dynamic library, the flush when the engine
  holds accumulated edits, the re-sign when entitlements were found.\<close>

definition injection_calls ::
  "string \<Rightarrow> string \<Rightarrow> bool \<Rightarrow> string list \<Rightarrow> bool \<Rightarrow> bool \<Rightarrow> call list" where
  "injection_calls exe ent inject_to_path ds flush sign =
     [WriteEntitlements exe ent, RemoveSignature exe]
     @ map (\<lambda>d. InjFunc exe (reference inject_to_path d)) ds
     @ (if flush then [InjWrite exe] else [])
     @ (if sign then [SignWithEntitlements exe ent] else [])"

text \<open>The keys of the tweak set that are injected into an extension.\<close>

definition dylib_keys :: "(string \<times> string) list \<Rightarrow> string list" where
  "dylib_keys tweaks = map fst (filter (\<lambda>(k, v). endswith k ''.dylib'') tweaks)"

text \<open>From one world to a later one only calls were recorded, each satisfying \<open>Q\<close>; the
  tree is the same.\<close>

definition grows :: "(call \<times> (error + bool) \<Rightarrow> bool) \<Rightarrow> world \<Rightarrow> world \<Rightarrow> bool" where
  "grows Q w w' = (fs w' = fs w \<and> (\<exists>evs. trace w' = trace w @ evs \<and> list_all Q evs))"

text \<open>An action all of whose runs only record calls satisfying \<open>Q\<close>.\<close>

definition grower :: "(call \<times> (error + bool) \<Rightarrow> bool) \<Rightarrow> 'a action \<Rightarrow> bool" where
  "grower Q m = (\<forall>w r w'. m w = (r, w') \<longrightarrow> grows Q w w')"

text \<open>What \<^verbatim>\<open>_inject_into_extension\<close> does once the extension is readable, not encrypted
  and there is something to inject.\<close>

definition injection ::
  "env \<Rightarrow> string \<Rightarrow> string \<Rightarrow> string \<Rightarrow> bool \<Rightarrow> string list \<Rightarrow> unit action" where
  "injection env appex_path exe ent_path inject_to_path ds =
     and_then (do_call env (WriteEntitlements exe ent_path))
       (\<lambda>has_entitlements.
     and_then (do_call env (RemoveSignature exe))
       (\<lambda>_.
     and_then (inject_loop env exe inject_to_path ds)
       (\<lambda>_.
     and_then (\<lambda>w3. if has_inj env exe (trace w3)
                     then do_call env (InjWrite exe) w3 else (Inr True, w3))
       (\<lambda>_.
     and_then (\<lambda>w4. if has_entitlements
                     then do_call env (SignWithEntitlements exe ent_path) w4
                     else (Inr True, w4))
       (\<lambda>_ w5. (Inr (), print_line (injected_line (basename appex_path)) w5))))))"

text \<open>Two extensions below \<^verbatim>\<open>PlugIns\<close>, and collaborators for them: in \<open>env3\<close> every call
  succeeds; in \<open>env4\<close> the entitlements of the first extension cannot be written; in
  \<open>env5\<close> the metadata document of the first extension cannot be read.\<close>

definition plist_of :: "string \<Rightarrow> plist" where
  "plist_of name = (\<lambda>k. if k = ''CFBundleExecutable'' then Some name else None)"

definition appexA :: string where "appexA = ''/P/App.app/PlugIns/A.appex''"

definition appexB :: string where "appexB = ''/P/App.app/PlugIns/B.appex''"

definition bundleA :: app_bundle where
  "bundleA = \<lparr>path = appexA, plist = plist_of ''A'',
              executable = \<lparr>exe_path = appexA @ ''/A'', bn = ''A''\<rparr>,
              cached_executables = None\<rparr>"

definition bundleB :: app_bundle where
  "bundleB = \<lparr>path = appexB, plist = plist_of ''B'',
              executable = \<lparr>exe_path = appexB @ ''/B'', bn = ''B''\<rparr>,
              cached_executables = None\<rparr>"

definition env3 :: env where
  "env3 = \<lparr>read_plist = (\<lambda>p a h.
               if p = appexA @ ''/Info.plist'' then Inr (plist_of ''A'')
               else if p = appexB @ ''/Info.plist'' then Inr (plist_of ''B'')
               else Inl (Failure ''unreadable'')),
            init_main_executable = (\<lambda>p a h. None),
            init_executable = (\<lambda>p h. None),
            is_encrypted = (\<lambda>p h. Inr False),
            has_inj = (\<lambda>p h. True),
            perform = (\<lambda>c h. Inr True)\<rparr>"

definition env4 :: env where
  "env4 = env3\<lparr>perform := (\<lambda>c h.
             if c = WriteEntitlements (appexA @ ''/A'') (appexA @ ''/cyan.entitlements'')
             then Inl (Failure ''ldid'') else Inr True)\<rparr>"

definition env5 :: env where
  "env5 = env3\<lparr>read_plist := (\<lambda>p a h.
             if p = appexB @ ''/Info.plist'' then Inr (plist_of ''B'')
             else Inl (Failure ''unreadable''))\<rparr>"

definition world3 :: world where
  "world3 = \<lparr>fs = [(''/P/App.app'', Dir), (''/P/App.app/App'', File),
                   (''/P/App.app/PlugIns'', Dir),
                   (''/P/App.app/PlugIns/A.appex'', Dir),
                   (''/P/App.app/PlugIns/A.appex/A'', File),
                   (''/P/App.app/PlugIns/B.appex'', Dir),
                   (''/P/App.app/PlugIns/B.appex/B'', File)],
             trace = [], out = []\<rparr>"

definition tweaks3 :: "(string \<times> string) list" where
  "tweaks3 = [(''t.dylib'', ''/src/t.dylib''), (''F.framework'', ''/src/F.framework'')]"

definition tweaks0 :: "(string \<times> string) list" where
  "tweaks0 = [(''F.framework'', ''/src/F.framework'')]"

definition ok_events :: "string \<Rightarrow> string \<Rightarrow> history" where
  "ok_events appex name =
     [(WriteEntitlements (appex @ ''/'' @ name) (appex @ ''/cyan.entitlements''), Inr True),
      (RemoveSignature (appex @ ''/'' @ name), Inr True),
      (InjFunc (appex @ ''/'' @ name) ''@rpath/t.dylib'', Inr True),
      (InjWrite (appex @ ''/'' @ name), Inr True),
      (SignWithEntitlements (appex @ ''/'' @ name) (appex @ ''/cyan.entitlements''), Inr True)]"

text \<open>What an extension answers when the filter asks it, with the engine's history \<open>h\<close>:
  whether its package view is constructed and its executable reports itself encrypted, and
  the executable name that its metadata document declares.\<close>

definition reports_encrypted :: "env \<Rightarrow> history \<Rightarrow> string \<Rightarrow> bool" where
  "reports_encrypted env h p =
     (case new_app_bundle env p h of
        Inl e \<Rightarrow> False
      | Inr ext \<Rightarrow> is_encrypted env (exe_path (executable ext)) h = Inr True)"

definition declared_name :: "env \<Rightarrow> history \<Rightarrow> string \<Rightarrow> string" where
  "declared_name env h p =
     (case new_app_bundle env p h of
        Inl e \<Rightarrow> []
      | Inr ext \<Rightarrow> (case plist ext ''CFBundleExecutable'' of None \<Rightarrow> [] | Some name \<Rightarrow> name))"

text \<open>The scenario of the specification: an encrypted extension \<^verbatim>\<open>A.appex\<close> and an
  extension \<^verbatim>\<open>B.appex\<close> that is not encrypted, both below \<^verbatim>\<open>Extensions\<close>.\<close>

definition extA :: string where "extA = ''/P/App.app/Extensions/A.appex''"

definition extB :: string where "extB = ''/P/App.app/Extensions/B.appex''"

definition env6 :: env where
  "env6 = \<lparr>read_plist = (\<lambda>p a h.
               if p = extA @ ''/Info.plist'' then Inr (plist_of ''A'')
               else if p = extB @ ''/Info.plist'' then Inr (plist_of ''B'')
               else Inl (Failure ''unreadable'')),
            init_main_executable = (\<lambda>p a h. None),
            init_executable = (\<lambda>p h. None),
            is_encrypted = (\<lambda>p h. Inr (p = extA @ ''/A'')),
            has_inj = (\<lambda>p h. True),
            perform = (\<lambda>c h. Inr True)\<rparr>"

definition tree6 :: tree where
  "tree6 = [(''/P/App.app/Extensions'', Dir),
            (''/P/App.app/Extensions/A.appex'', Dir),
            (''/P/App.app/Extensions/A.appex/Info.plist'', File),
            (''/P/App.app/Extensions/A.appex/A'', File),
            (''/P/App.app/Extensions/B.appex'', Dir),
            (''/P/App.app/Extensions/B.appex/Info.plist'', File),
            (''/P/App.app/Extensions/B.appex/B'', File)]"

definition tree6' :: tree where
  "tree6' = [(''/P/App.app/Extensions'', Dir),
             (''/P/App.app/Extensions/B.appex'', Dir),
             (''/P/App.app/Extensions/B.appex/Info.plist'', File),
             (''/P/App.app/Extensions/B.appex/B'', File)]"

definition world6 :: world where
  "world6 = \<lparr>fs = tree6, trace = [], out = []\<rparr>"

text \<open>Every recorded outcome is what the engine answered to that call, given the calls
  before it.\<close>

fun answered :: "env \<Rightarrow> history \<Rightarrow> history \<Rightarrow> bool" where
  "answered env h [] = True"
| "answered env h (ev # evs) = (snd ev = perform env (fst ev) h \<and> answered env (h @ [ev]) evs)"

text \<open>An action in which no error of a recorded call is swallowed: the recorded outcomes
  are the engine's answers, a recorded error is the result of the run, and a run that
  raises made its last call on the one that raised.\<close>

definition raises_through :: "env \<Rightarrow> 'a action \<Rightarrow> bool" where
  "raises_through env m =
     (\<forall>w r w'. m w = (r, w') \<longrightarrow>
        (\<exists>evs. trace w' = trace w @ evs \<and> answered env (trace w) evs
           \<and> (\<forall>c e. (c, Inl e) \<in> set evs \<longrightarrow> r = Inl e)
           \<and> (\<forall>e. r = Inl e \<longrightarrow> evs \<noteq> [] \<and> snd (last evs) = Inl e)))"

text \<open>A tweak set whose only key ends in \<^verbatim>\<open>.dylib\<close> and holds a relative path.\<close>

definition tweaks_nested :: "(string \<times> string) list" where
  "tweaks_nested = [(''a/../../b.dylib'', ''/src/b.dylib'')]"

text \<open>Collaborators for the scenario of the specification with one metadata document
  unreadable: in \<open>env7\<close> the one of \<^verbatim>\<open>A.appex\<close>, with \<^verbatim>\<open>B.appex\<close> encrypted; in \<open>env8\<close> the
  one of \<^verbatim>\<open>B.appex\<close>, with \<^verbatim>\<open>A.appex\<close> encrypted.\<close>

definition env7 :: env where
  "env7 = env6\<lparr>read_plist := (\<lambda>p a h.
               if p = extB @ ''/Info.plist'' then Inr (plist_of ''B'')
               else Inl (Failure ''unreadable'')),
             is_encrypted := (\<lambda>p h. Inr (p = extB @ ''/B''))\<rparr>"

definition env8 :: env where
  "env8 = env6\<lparr>read_plist := (\<lambda>p a h.
               if p = extA @ ''/Info.plist'' then Inr (plist_of ''A'')
               else Inl (Failure ''unreadable''))\<rparr>"

section \<open>Properties\<close>

lemmas str_eval = str_in_def endswith_def sublist_code(3) suffix_to_prefix
  resolve_name_def path_exists_def under_def

subsection \<open>The removal engine\<close>

lemma path_exists_iff: "path_exists t p \<longleftrightarrow> p \<in> fst ` set t"
  by (simp add: path_exists_def map_of_eq_None_iff)

lemma rmtree_cases:
  "rmtree p t = Inr t' \<Longrightarrow> \<not> path_exists t' p \<and> (\<forall>q. path_exists t' q \<longrightarrow> path_exists t q)"
  by (auto simp: rmtree_def path_exists_iff under_def split: option.splits node.splits)

lemma rmtree_errors:
  "path_exists t p \<Longrightarrow> rmtree p t = Inl e \<Longrightarrow> e = NotADirectoryError \<and> map_of t p = Some File"
  by (auto simp: rmtree_def path_exists_def split: option.splits node.splits)

lemma os_remove_file:
  "map_of t p = Some File \<Longrightarrow>
     \<exists>t'. os_remove p t = Inr t' \<and> \<not> path_exists t' p
        \<and> (\<forall>q. path_exists t' q \<longrightarrow> path_exists t q)"
  by (auto simp: os_remove_def path_exists_iff)

text \<open>The loop never raises; it answers whether the flag was set or some name existed, it
  leaves no named entry behind, and it only ever deletes.\<close>

lemma remove_loop_spec:
  "\<exists>r t'. remove_loop root names existed t = (Inr r, t')
      \<and> (r \<longleftrightarrow> existed \<or> (\<exists>n\<in>set names. path_exists t (resolve_name root n)))
      \<and> (\<forall>n\<in>set names. \<not> path_exists t' (resolve_name root n))
      \<and> (\<forall>q. path_exists t' q \<longrightarrow> path_exists t q)"
proof (induction names arbitrary: existed t)
  case Nil
  show ?case by simp
next
  case (Cons name names)
  let ?p = "resolve_name root name"
  show ?case
  proof (cases "path_exists t ?p")
    case False
    from Cons.IH [of existed t] obtain r t' where
      "remove_loop root names existed t = (Inr r, t')"
      "r \<longleftrightarrow> existed \<or> (\<exists>n\<in>set names. path_exists t (resolve_name root n))"
      "\<forall>n\<in>set names. \<not> path_exists t' (resolve_name root n)"
      "\<forall>q. path_exists t' q \<longrightarrow> path_exists t q" by blast
    with False show ?thesis by auto
  next
    case True
    have "\<exists>t1. (rmtree ?p t = Inr t1
                 \<or> (rmtree ?p t = Inl NotADirectoryError \<and> os_remove ?p t = Inr t1))
            \<and> \<not> path_exists t1 ?p \<and> (\<forall>q. path_exists t1 q \<longrightarrow> path_exists t q)"
    proof (cases "rmtree ?p t")
      case (Inr t1)
      then show ?thesis using rmtree_cases by blast
    next
      case (Inl e)
      with True rmtree_errors have "e = NotADirectoryError" "map_of t ?p = Some File"
        by blast+
      with Inl os_remove_file show ?thesis by blast
    qed
    then obtain t1 where
      step: "rmtree ?p t = Inr t1
             \<or> (rmtree ?p t = Inl NotADirectoryError \<and> os_remove ?p t = Inr t1)"
      and gone: "\<not> path_exists t1 ?p"
      and mono: "\<forall>q. path_exists t1 q \<longrightarrow> path_exists t q" by blast
    from step True
    have eq: "remove_loop root (name # names) existed t = remove_loop root names True t1"
      by auto
    from Cons.IH [of True t1] obtain r t' where
      "remove_loop root names True t1 = (Inr r, t')"
      "r \<longleftrightarrow> True \<or> (\<exists>n\<in>set names. path_exists t1 (resolve_name root n))"
      "\<forall>n\<in>set names. \<not> path_exists t' (resolve_name root n)"
      "\<forall>q. path_exists t' q \<longrightarrow> path_exists t1 q" by blast
    with eq True gone mono show ?thesis by auto
  qed
qed

lemma remove_loop_tree:
  "snd (remove_loop root names existed t) =
     foldl (\<lambda>t name. delete_entry (if str_in root name then name else root @ ''/'' @ name) t)
       t names"
proof (induction names arbitrary: existed t)
  case Nil
  show ?case by simp
next
  case (Cons name names)
  show ?case
    by (cases "map_of t (resolve_name root name)")
       (auto simp: Cons.IH delete_entry_def rmtree_def os_remove_def path_exists_def
          resolve_name_def split: node.splits)
qed

text \<open>
  \<^bold>\<open>C2\<close>, as stated, fails, at the input that also decides C8: the method looks a name up
  where its own containment test sends it. The absolute name \<^verbatim>\<open>/tmp/x\<close> names an existing
  file, yet \<^verbatim>\<open>remove\<close> answers false, and the file is still there after the call.
\<close>

theorem remove_named_entry_counterexample:
  "isabs ''/tmp/x''
   \<and> spec_resolve (path bundle0) ''/tmp/x'' = ''/tmp/x''
   \<and> path_exists (fs world0) (spec_resolve (path bundle0) ''/tmp/x'')
   \<and> remove bundle0 [''/tmp/x''] world0 = (Inr False, world0)
   \<and> path_exists (fs (snd (remove bundle0 [''/tmp/x''] world0)))
        (spec_resolve (path bundle0) ''/tmp/x'')"
  by (simp add: remove_def bundle0_def world0_def str_eval isabs_def spec_resolve_def)

text \<open>
  \<^bold>\<open>C2\<close>, amended. For every package and every list of names, \<^verbatim>\<open>remove\<close> returns (it raises
  nothing); it returns false exactly when none of the paths it resolves the names to
  existed before the call, and after the call none of these paths exists. A name is
  resolved to itself when the package root occurs inside it, and to the package root, a
  slash and the name otherwise.
\<close>

theorem remove_false_iff_absent:
  "\<exists>r w'. remove b names w = (Inr r, w')
     \<and> (r = False \<longleftrightarrow>
          (\<forall>n\<in>set names.
             \<not> path_exists (fs w) (if str_in (path b) n then n else path b @ ''/'' @ n)))
     \<and> (\<forall>n\<in>set names.
           \<not> path_exists (fs w') (if str_in (path b) n then n else path b @ ''/'' @ n))"
proof -
  from remove_loop_spec [of "path b" names False "fs w"] obtain r t' where
    "remove_loop (path b) names False (fs w) = (Inr r, t')"
    "r \<longleftrightarrow> (\<exists>n\<in>set names. path_exists (fs w) (resolve_name (path b) n))"
    "\<forall>n\<in>set names. \<not> path_exists t' (resolve_name (path b) n)" by auto
  then show ?thesis unfolding resolve_name_def by (auto simp: remove_def)
qed

theorem remove_false_iff_absent_witness:
  "fst (remove bundle0 [''Watch'', ''WatchKit'', ''App''] world0) = Inr True
   \<and> \<not> str_in (path bundle0) ''Watch''
   \<and> path_exists (fs world0) (path bundle0 @ ''/'' @ ''Watch'')
   \<and> \<not> path_exists (fs (snd (remove bundle0 [''Watch'', ''WatchKit'', ''App''] world0)))
         (path bundle0 @ ''/'' @ ''Watch'')
   \<and> \<not> path_exists (fs (snd (remove bundle0 [''Watch'', ''WatchKit'', ''App''] world0)))
         (path bundle0 @ ''/'' @ ''App'')"
  using remove_false_iff_absent [of bundle0 "[''Watch'', ''WatchKit'', ''App'']" world0]
  by (simp add: remove_def bundle0_def world0_def str_eval rmtree_def os_remove_def)

text \<open>
  \<^bold>\<open>C8\<close>, as stated, fails: the test the method makes is whether the package root occurs
  inside the name, not whether the name is absolute. The absolute name \<^verbatim>\<open>/tmp/x\<close> does
  not contain the root \<^verbatim>\<open>/P/App.app\<close>, so it is looked up below the root: the file
  \<^verbatim>\<open>/tmp/x\<close> exists, stays, and \<^verbatim>\<open>remove\<close> answers false.
\<close>

theorem remove_resolution_counterexample:
  "isabs ''/tmp/x''
   \<and> resolve_name (path bundle0) ''/tmp/x'' = ''/P/App.app//tmp/x''
   \<and> resolve_name (path bundle0) ''/tmp/x'' \<noteq> spec_resolve (path bundle0) ''/tmp/x''
   \<and> path_exists (fs world0) ''/tmp/x''
   \<and> remove bundle0 [''/tmp/x''] world0 = (Inr False, world0)"
  by (simp add: remove_def bundle0_def world0_def str_eval isabs_def spec_resolve_def)

text \<open>
  \<^bold>\<open>C8\<close>, amended. For every name passed to \<^verbatim>\<open>remove\<close>, the entry the method acts on is
  the name itself when the package root occurs inside the name, and otherwise the package
  root, a slash and the name: the tree after the call is the tree before it with these
  entries deleted, in the order of the names.
\<close>

theorem remove_acts_on_resolved:
  "fs (snd (remove b names w)) =
     foldl (\<lambda>t name. delete_entry
                        (if str_in (path b) name then name else path b @ ''/'' @ name) t)
       (fs w) names"
  using remove_loop_tree [of "path b" names False "fs w"]
  by (cases "remove_loop (path b) names False (fs w)") (simp add: remove_def)

subsection \<open>The mass operation driver\<close>

lemma executable_call_ok:
  "executable_call env f p w = (Inr ok, w') \<Longrightarrow>
     w' = w\<lparr>trace := trace w @ [(Capability f p, Inr ok)]\<rparr>"
  by (auto simp: executable_call_def do_call_def Let_def split: option.splits)

lemma executable_call_err:
  "executable_call env f p w = (Inl e, w') \<Longrightarrow> out w' = out w \<and> fs w' = fs w"
  by (auto simp: executable_call_def do_call_def Let_def split: option.splits)

lemma artifact_call_ok:
  "artifact_call env f ts w = (Inr ok, w') \<Longrightarrow>
     \<exists>p. artifact_executable env ts (trace w) = Some p
        \<and> w' = w\<lparr>trace := trace w @ [(Capability f p, Inr ok)]\<rparr>"
  by (auto simp: artifact_call_def artifact_executable_def
       split: if_splits sum.splits option.splits dest: executable_call_ok)

lemma artifact_call_err:
  "artifact_call env f ts w = (Inl e, w') \<Longrightarrow> out w' = out w \<and> fs w' = fs w"
  by (auto simp: artifact_call_def split: if_splits sum.splits option.splits
       dest: executable_call_err)

lemma sweep_ok:
  "sweep env f xs c w = (Inr c', w') \<Longrightarrow>
     \<exists>evs. w' = w\<lparr>trace := trace w @ evs\<rparr>
        \<and> length evs = length xs
        \<and> c' = c + length (filter succeeded evs)
        \<and> (\<forall>i<length xs. \<exists>p ok. evs ! i = (Capability f p, Inr ok)
              \<and> artifact_executable env (xs ! i) (trace w @ take i evs) = Some p)"
proof (induction xs arbitrary: c w)
  case Nil
  then show ?case by simp
next
  case (Cons ts rest)
  from Cons.prems obtain ok w1 where
    step: "artifact_call env f ts w = (Inr ok, w1)"
    and rest: "sweep env f rest (if ok then c + 1 else c) w1 = (Inr c', w')"
    by (auto split: prod.splits sum.splits)
  from artifact_call_ok [OF step] obtain p where
    p: "artifact_executable env ts (trace w) = Some p"
    and w1: "w1 = w\<lparr>trace := trace w @ [(Capability f p, Inr ok)]\<rparr>" by blast
  from Cons.IH [OF rest] obtain evs where
    w': "w' = w1\<lparr>trace := trace w1 @ evs\<rparr>"
    and len: "length evs = length rest"
    and cnt: "c' = (if ok then c + 1 else c) + length (filter succeeded evs)"
    and each: "\<forall>i<length rest. \<exists>p ok. evs ! i = (Capability f p, Inr ok)
              \<and> artifact_executable env (rest ! i) (trace w1 @ take i evs) = Some p"
    by blast
  let ?evs = "(Capability f p, Inr ok) # evs"
  have "w' = w\<lparr>trace := trace w @ ?evs\<rparr>" using w' w1 by simp
  moreover have "length ?evs = length (ts # rest)" using len by simp
  moreover have "c' = c + length (filter succeeded ?evs)"
    using cnt by (simp add: succeeded_def)
  moreover have "\<forall>i<length (ts # rest). \<exists>p ok. ?evs ! i = (Capability f p, Inr ok)
              \<and> artifact_executable env ((ts # rest) ! i) (trace w @ take i ?evs) = Some p"
  proof (intro allI impI)
    fix i assume i: "i < length (ts # rest)"
    show "\<exists>p ok. ?evs ! i = (Capability f p, Inr ok)
              \<and> artifact_executable env ((ts # rest) ! i) (trace w @ take i ?evs) = Some p"
    proof (cases i)
      case 0
      then show ?thesis using p by simp
    next
      case (Suc j)
      with i have "j < length rest" by simp
      with each obtain q okq where "evs ! j = (Capability f q, Inr okq)"
        "artifact_executable env (rest ! j) (trace w1 @ take j evs) = Some q" by blast
      then show ?thesis using Suc w1 by simp
    qed
  qed
  ultimately show ?case by blast
qed

lemma sweep_err:
  "sweep env f xs c w = (Inl e, w') \<Longrightarrow> out w' = out w \<and> fs w' = fs w"
proof (induction xs arbitrary: c w)
  case Nil
  then show ?case by simp
next
  case (Cons ts rest)
  show ?case
  proof (cases "artifact_call env f ts w")
    case (Pair r w1)
    show ?thesis
    proof (cases r)
      case (Inl e1)
      with Pair Cons.prems artifact_call_err [of env f ts w e1 w1] show ?thesis by simp
    next
      case (Inr ok)
      with Pair Cons.prems
      have "sweep env f rest (if ok then c + 1 else c) w1 = (Inl e, w')" by simp
      from Cons.IH [OF this] artifact_call_ok [of env f ts w ok w1] Pair Inr
      show ?thesis by auto
    qed
  qed
qed

text \<open>
  \<^bold>\<open>C1\<close>, amended. When \<^verbatim>\<open>mass_operate\<close> completes, it has made one capability call on
  the main executable and then one on the resolved executable of each enumerated artifact,
  in order, and the count it reports is 1 if the call on the main executable returned
  success and 0 if it did not, plus the number of artifact calls that returned success.
  Artifact calls that return failure do not stop the sweep.
\<close>

theorem mass_operate_count:
  assumes "mass_operate env op f b w = (Inr (), b', w')"
  shows "\<exists>ok evs.
           trace w' = trace w @ (Capability f (exe_path (executable b)), Inr ok) # evs
         \<and> length evs = length (cache_of b w)
         \<and> (\<forall>i<length (cache_of b w). \<exists>p r. evs ! i = (Capability f p, Inr r)
              \<and> artifact_executable env (cache_of b w ! i)
                   (trace w @ (Capability f (exe_path (executable b)), Inr ok) # take i evs) = Some p)
         \<and> out w' = out w @ [report op ((if ok then 1 else 0) + length (filter succeeded evs))]"
proof -
  let ?main = "Capability f (exe_path (executable b))"
  from assms obtain ok w1 count w2 where
    main: "do_call env ?main w = (Inr ok, w1)"
    and sw: "sweep env f (cache_of b w) (if ok then 1 else 0) w1 = (Inr count, w2)"
    and w': "w' = print_line (report op count) w2"
    by (auto simp: mass_operate_def cache_of_def Let_def
          split: option.splits prod.splits sum.splits)
  from main have w1: "w1 = w\<lparr>trace := trace w @ [(?main, Inr ok)]\<rparr>"
    by (auto simp: do_call_def Let_def)
  from sweep_ok [OF sw] obtain evs where
    w2: "w2 = w1\<lparr>trace := trace w1 @ evs\<rparr>"
    and len: "length evs = length (cache_of b w)"
    and cnt: "count = (if ok then 1 else 0) + length (filter succeeded evs)"
    and each: "\<forall>i<length (cache_of b w). \<exists>p r. evs ! i = (Capability f p, Inr r)
              \<and> artifact_executable env (cache_of b w ! i) (trace w1 @ take i evs) = Some p"
    by blast
  have "trace w' = trace w @ (?main, Inr ok) # evs"
    using w' w2 w1 by (simp add: print_line_def)
  moreover have "out w' = out w @ [report op ((if ok then 1 else 0) + length (filter succeeded evs))]"
    using w' w2 w1 cnt by (simp add: print_line_def)
  moreover have "\<forall>i<length (cache_of b w). \<exists>p r. evs ! i = (Capability f p, Inr r)
              \<and> artifact_executable env (cache_of b w ! i)
                   (trace w @ (?main, Inr ok) # take i evs) = Some p"
    using each w1 by simp
  ultimately show ?thesis using len by blast
qed

lemmas glob_eval = get_executables_def get_all_appex_def glob_recursive_def
  glob_two_level_def glob_one_level_def match_recursive_def match_two_level_def
  match_one_level_def visible_def

lemma get_executables_world1: "get_executables bundle0 world1 = cache1"
  by (simp add: glob_eval bundle0_def world1_def cache1_def str_eval)

lemma do_call_eq:
  "do_call env c w = (perform env c (trace w), w\<lparr>trace := trace w @ [(c, perform env c (trace w))]\<rparr>)"
  by (simp add: do_call_def Let_def)

lemma perform_env1: "perform env1 c h = Inr (c \<noteq> Capability thin ''/P/App.app/App'')"
  by (simp add: env1_def)

lemma artifact_dylib_env1:
  "artifact_call env1 thin ''/P/App.app/Frameworks/t.dylib'' w =
     (Inr True, w\<lparr>trace := trace w @ [(Capability thin ''/P/App.app/Frameworks/t.dylib'', Inr True)]\<rparr>)"
  by (simp add: artifact_call_def executable_call_def do_call_eq endswith_def
        suffix_to_prefix env1_def)

lemma artifact_appex_env1:
  "artifact_call env1 thin ''/P/App.app/PlugIns/E.appex'' w =
     (Inr True, w\<lparr>trace := trace w @ [(Capability thin ''/P/App.app/PlugIns/E.appex/E'', Inr True)]\<rparr>)"
  by (simp add: artifact_call_def executable_call_def do_call_eq endswith_def
        suffix_to_prefix env1_def)

lemma sweep_env1:
  "sweep env1 thin cache1 c w =
     (Inr (c + 2), w\<lparr>trace := trace w @
        [(Capability thin ''/P/App.app/Frameworks/t.dylib'', Inr True),
         (Capability thin ''/P/App.app/PlugIns/E.appex/E'', Inr True)]\<rparr>)"
  by (simp add: cache1_def artifact_dylib_env1 artifact_appex_env1)

lemma mass_operate_world1:
  "mass_operate env1 ''thinned'' thin bundle0 world1 =
     (Inr (), bundle0\<lparr>cached_executables := Some cache1\<rparr>,
      world1\<lparr>trace := trace1, out := [report ''thinned'' 2]\<rparr>)"
proof -
  have c: "cached_executables bundle0 = None" by (simp add: bundle0_def)
  have e: "exe_path (executable bundle0) = ''/P/App.app/App''" by (simp add: bundle0_def)
  have t: "trace world1 = []" "out world1 = []" by (simp_all add: world1_def)
  show ?thesis
    by (simp add: mass_operate_def Let_def c e t get_executables_world1 do_call_eq perform_env1
          sweep_env1 print_line_def trace1_def numeral_2_eq_2)
qed

lemma report_neq: "report ''thinned'' 2 \<noteq> report ''thinned'' 3"
  by (simp add: report_def str_nat.simps digit_def)

text \<open>
  \<^bold>\<open>C1\<close>, as stated, fails: the main executable counts only when its own call succeeds.
  Thinning an already thin main executable fails while both artifacts are thinned; the
  method reports 2, not 1 + 2.
\<close>

theorem mass_operate_count_counterexample:
  "mass_operate env1 ''thinned'' thin bundle0 world1 =
     (Inr (), bundle0\<lparr>cached_executables := Some cache1\<rparr>,
      world1\<lparr>trace := trace1, out := [report ''thinned'' 2]\<rparr>)
   \<and> get_executables bundle0 world1 = cache1
   \<and> length cache1 = 2
   \<and> filter succeeded (tl trace1) = tl trace1
   \<and> report ''thinned'' 2 \<noteq> report ''thinned'' (1 + length (filter succeeded (tl trace1)))"
proof -
  have n: "1 + length (filter succeeded (tl trace1)) = 3"
    by (simp add: trace1_def succeeded_def)
  have "filter succeeded (tl trace1) = tl trace1"
    by (simp add: trace1_def succeeded_def)
  moreover have "length cache1 = 2" by (simp add: cache1_def)
  moreover have "report ''thinned'' 2 \<noteq> report ''thinned'' (1 + length (filter succeeded (tl trace1)))"
    unfolding n by (rule report_neq)
  ultimately show ?thesis
    using mass_operate_world1 get_executables_world1 by (intro conjI)
qed

text \<open>
  The amended statement at that input.
\<close>

theorem mass_operate_count_witness:
  "mass_operate env1 ''thinned'' thin bundle0 world1 =
     (Inr (), bundle0\<lparr>cached_executables := Some cache1\<rparr>,
      world1\<lparr>trace := trace1, out := [report ''thinned'' 2]\<rparr>)
   \<and> (\<exists>ok evs. trace1 = (Capability thin ''/P/App.app/App'', Inr ok) # evs
        \<and> length evs = length cache1
        \<and> [report ''thinned'' 2] =
            [report ''thinned'' ((if ok then 1 else 0) + length (filter succeeded evs))])"
proof -
  have c: "cache_of bundle0 world1 = cache1"
  proof -
    have "cached_executables bundle0 = None" by (simp add: bundle0_def)
    then show ?thesis by (simp add: cache_of_def get_executables_world1)
  qed
  have e: "exe_path (executable bundle0) = ''/P/App.app/App''" by (simp add: bundle0_def)
  have t: "trace world1 = []" "out world1 = []" by (simp_all add: world1_def)
  from mass_operate_count [OF mass_operate_world1] obtain ok evs where
    "trace (world1\<lparr>trace := trace1, out := [report ''thinned'' 2]\<rparr>) =
       trace world1 @ (Capability thin (exe_path (executable bundle0)), Inr ok) # evs"
    "length evs = length (cache_of bundle0 world1)"
    "out (world1\<lparr>trace := trace1, out := [report ''thinned'' 2]\<rparr>) =
       out world1 @ [report ''thinned'' ((if ok then 1 else 0) + length (filter succeeded evs))]"
    by blast
  then have "trace1 = (Capability thin ''/P/App.app/App'', Inr ok) # evs
        \<and> length evs = length cache1
        \<and> [report ''thinned'' 2] =
            [report ''thinned'' ((if ok then 1 else 0) + length (filter succeeded evs))]"
    by (simp add: c e t)
  then show ?thesis using mass_operate_world1 by blast
qed

lemma mass_operate_cache:
  "cached_executables (fst (snd (mass_operate env op f b w))) = Some (cache_of b w)"
  by (auto simp: mass_operate_def cache_of_def Let_def split: option.splits prod.splits sum.splits)

lemma executable_call_fs:
  "executable_call env f p (w\<lparr>fs := t\<rparr>) =
     (case executable_call env f p w of (r, w') \<Rightarrow> (r, w'\<lparr>fs := t\<rparr>))"
  by (simp add: executable_call_def do_call_eq split: option.splits)

lemma artifact_call_fs:
  "artifact_call env f ts (w\<lparr>fs := t\<rparr>) =
     (case artifact_call env f ts w of (r, w') \<Rightarrow> (r, w'\<lparr>fs := t\<rparr>))"
  by (simp add: artifact_call_def executable_call_fs split: sum.splits option.splits)

lemma sweep_fs:
  "sweep env f xs c (w\<lparr>fs := t\<rparr>) =
     (case sweep env f xs c w of (r, w') \<Rightarrow> (r, w'\<lparr>fs := t\<rparr>))"
proof (induction xs arbitrary: c w)
  case Nil
  show ?case by simp
next
  case (Cons ts rest)
  show ?case
    by (cases "artifact_call env f ts w")
       (simp add: artifact_call_fs Cons.IH split: sum.splits)
qed

lemma do_call_fs:
  "do_call env c (w\<lparr>fs := t\<rparr>) = (case do_call env c w of (r, w') \<Rightarrow> (r, w'\<lparr>fs := t\<rparr>))"
  by (simp add: do_call_eq)

lemma print_line_fs: "print_line s (w\<lparr>fs := t\<rparr>) = (print_line s w)\<lparr>fs := t\<rparr>"
  by (simp add: print_line_def)

lemma mass_operate_fs:
  assumes "cached_executables b = Some xs"
  shows "mass_operate env op f b (w\<lparr>fs := t\<rparr>) =
       (case mass_operate env op f b w of (r, b', w') \<Rightarrow> (r, b', w'\<lparr>fs := t\<rparr>))"
proof (cases "do_call env (Capability f (exe_path (executable b))) w")
  case (Pair r1 w1)
  show ?thesis
  proof (cases r1)
    case (Inl e)
    with Pair assms show ?thesis by (simp add: mass_operate_def do_call_fs)
  next
    case (Inr ok)
    show ?thesis
    proof (cases "sweep env f xs (if ok then 1 else 0) w1")
      case sw: (Pair r2 w2)
      with Pair Inr assms show ?thesis
        by (cases r2) (simp_all add: mass_operate_def do_call_fs sweep_fs print_line_fs)
    qed
  qed
qed

text \<open>
  \<^bold>\<open>C7.\<close> For every package instance the enumeration is computed at most once. The first
  access stores the artifacts found then; after every later access, by whatever
  collaborators and in whatever world, the cache still holds that same sequence; and a
  later access does not look at the tree at all: changing the tree changes nothing but the
  tree in its outcome.
\<close>

theorem cache_computed_once:
  assumes "cached_executables b = None"
    and "mass_operate env op f b w = (r, b1, w1)"
  shows "cached_executables b1 = Some (get_executables b w)
     \<and> (\<forall>env' op' f' w2.
           cached_executables (fst (snd (mass_operate env' op' f' b1 w2)))
             = Some (get_executables b w))
     \<and> (\<forall>env' op' f' w2 t.
           mass_operate env' op' f' b1 (w2\<lparr>fs := t\<rparr>) =
             (case mass_operate env' op' f' b1 w2 of (r2, b2, w3) \<Rightarrow> (r2, b2, w3\<lparr>fs := t\<rparr>)))"
proof -
  from assms have c1: "cached_executables b1 = Some (get_executables b w)"
    using mass_operate_cache [of env op f b w] by (simp add: cache_of_def)
  then have "\<And>w2. cache_of b1 w2 = get_executables b w" by (simp add: cache_of_def)
  then show ?thesis using c1 mass_operate_cache mass_operate_fs [OF c1] by simp
qed

text \<open>
  After one sweep a dynamic library is added under the root: enumerating anew would find
  it, the cache does not.
\<close>

theorem cache_computed_once_witness:
  "cached_executables bundle0 = None
   \<and> mass_operate env1 ''thinned'' thin bundle0 world1 =
       (Inr (), bundle0\<lparr>cached_executables := Some cache1\<rparr>,
        world1\<lparr>trace := trace1, out := [report ''thinned'' 2]\<rparr>)
   \<and> get_executables bundle0 world2 = ''/P/App.app/new.dylib'' # cache1
   \<and> cached_executables (fst (snd (mass_operate env2 ''fakesigned'' fakesign
         (bundle0\<lparr>cached_executables := Some cache1\<rparr>) world2))) = Some cache1"
proof -
  have c: "cached_executables bundle0 = None" by (simp add: bundle0_def)
  have g: "get_executables bundle0 world2 = ''/P/App.app/new.dylib'' # cache1"
    by (simp add: glob_eval bundle0_def world1_def world2_def cache1_def str_eval)
  from cache_computed_once [OF c mass_operate_world1]
  have "cached_executables (fst (snd (mass_operate env2 ''fakesigned'' fakesign
         (bundle0\<lparr>cached_executables := Some cache1\<rparr>) world2))) = Some cache1"
    by (simp add: get_executables_world1)
  with c g mass_operate_world1 show ?thesis by (intro conjI)
qed

lemma artifact_call_unreadable:
  "\<not> endswith ts ''.dylib'' \<Longrightarrow> read_plist env (ts @ ''/Info.plist'') None (trace w) = Inl e
     \<Longrightarrow> artifact_call env f ts w = (Inl e, w)"
  by (simp add: artifact_call_def)

lemma sweep_append:
  "sweep env f (xs @ ys) c w =
     (case sweep env f xs c w of
        (Inl e, w1) \<Rightarrow> (Inl e, w1)
      | (Inr c1, w1) \<Rightarrow> sweep env f ys c1 w1)"
proof (induction xs arbitrary: c w)
  case Nil
  show ?case by simp
next
  case (Cons x xs)
  show ?case
    by (cases "artifact_call env f x w") (simp add: Cons.IH split: sum.splits)
qed

lemma sweep_unreadable:
  assumes "ts \<in> set xs" "\<not> endswith ts ''.dylib''"
    and "\<forall>h. \<exists>e. read_plist env (ts @ ''/Info.plist'') None h = Inl e"
  shows "\<exists>e w'. sweep env f xs c w = (Inl e, w') \<and> out w' = out w"
proof -
  from assms(1) obtain pre post where xs: "xs = pre @ ts # post"
    by (auto simp: in_set_conv_decomp)
  show ?thesis
  proof (cases "sweep env f pre c w")
    case (Pair r w1)
    show ?thesis
    proof (cases r)
      case (Inl e)
      with Pair sweep_err [of env f pre c w e w1] show ?thesis
        by (simp add: xs sweep_append)
    next
      case (Inr c1)
      from assms(3) obtain e where e: "read_plist env (ts @ ''/Info.plist'') None (trace w1) = Inl e"
        by blast
      from sweep_ok [of env f pre c w c1 w1] Pair Inr have "out w1 = out w" by auto
      with Pair Inr artifact_call_unreadable [OF assms(2) e] show ?thesis
        by (simp add: xs sweep_append)
    qed
  qed
qed

text \<open>
  \<^bold>\<open>C9.\<close> The read of a nested metadata document in \<^verbatim>\<open>mass_operate\<close> is not guarded. If
  an enumerated artifact that is not a dynamic library has an unreadable document, then
  \<^verbatim>\<open>mass_operate\<close> ends with an error and prints no count; and when the sweep reaches
  that artifact without an earlier error, the error it ends with is the one of the read,
  with the artifacts after it left untouched.
\<close>

theorem unreadable_metadata_aborts_sweep:
  assumes "ts \<in> set (cache_of b w)" "\<not> endswith ts ''.dylib''"
    and "\<forall>h. \<exists>e. read_plist env (ts @ ''/Info.plist'') None h = Inl e"
  shows "(\<exists>e b' w'. mass_operate env op f b w = (Inl e, b', w') \<and> out w' = out w)
     \<and> (\<forall>pre post c w0 c1 w1. sweep env f pre c w0 = (Inr c1, w1) \<longrightarrow>
           (\<exists>e. read_plist env (ts @ ''/Info.plist'') None (trace w1) = Inl e
               \<and> sweep env f (pre @ ts # post) c w0 = (Inl e, w1)))"
proof (rule conjI)
  let ?main = "Capability f (exe_path (executable b))"
  show "\<exists>e b' w'. mass_operate env op f b w = (Inl e, b', w') \<and> out w' = out w"
  proof (cases "perform env ?main (trace w)")
    case (Inl e)
    then show ?thesis
      by (simp add: mass_operate_def do_call_eq Let_def split: option.splits)
  next
    case (Inr ok)
    from sweep_unreadable [OF assms, of f "if ok then 1 else 0"
        "w\<lparr>trace := trace w @ [(?main, Inr ok)]\<rparr>"]
    obtain e w' where "sweep env f (cache_of b w) (if ok then 1 else 0)
        (w\<lparr>trace := trace w @ [(?main, Inr ok)]\<rparr>) = (Inl e, w')" "out w' = out w"
      by auto
    with Inr show ?thesis
      by (auto simp: mass_operate_def do_call_eq Let_def cache_of_def split: option.splits)
  qed
next
  show "\<forall>pre post c w0 c1 w1. sweep env f pre c w0 = (Inr c1, w1) \<longrightarrow>
           (\<exists>e. read_plist env (ts @ ''/Info.plist'') None (trace w1) = Inl e
               \<and> sweep env f (pre @ ts # post) c w0 = (Inl e, w1))"
  proof (intro allI impI)
    fix pre post c w0 c1 w1
    assume pre: "sweep env f pre c w0 = (Inr c1, w1)"
    from assms(3) obtain e where e: "read_plist env (ts @ ''/Info.plist'') None (trace w1) = Inl e"
      by blast
    with pre artifact_call_unreadable [OF assms(2) e]
    show "\<exists>e. read_plist env (ts @ ''/Info.plist'') None (trace w1) = Inl e
               \<and> sweep env f (pre @ ts # post) c w0 = (Inl e, w1)"
      by (simp add: sweep_append)
  qed
qed

lemma mass_operate_env2:
  "mass_operate env2 ''fakesigned'' fakesign bundle0 world1 =
     (Inl (Failure ''unreadable''), bundle0\<lparr>cached_executables := Some cache1\<rparr>,
      world1\<lparr>trace := [(Capability fakesign ''/P/App.app/App'', Inr True),
                        (Capability fakesign ''/P/App.app/Frameworks/t.dylib'', Inr True)]\<rparr>)"
proof -
  have c: "cached_executables bundle0 = None" by (simp add: bundle0_def)
  have e: "exe_path (executable bundle0) = ''/P/App.app/App''" by (simp add: bundle0_def)
  have t: "trace world1 = []" by (simp add: world1_def)
  have p: "\<And>c h. perform env2 c h = Inr (c \<noteq> Capability thin ''/P/App.app/App'')"
    by (simp add: env2_def env1_def)
  have a1: "\<And>w. artifact_call env2 fakesign ''/P/App.app/Frameworks/t.dylib'' w =
     (Inr True, w\<lparr>trace := trace w @ [(Capability fakesign ''/P/App.app/Frameworks/t.dylib'', Inr True)]\<rparr>)"
    by (simp add: artifact_call_def executable_call_def do_call_eq endswith_def
          suffix_to_prefix env2_def env1_def)
  have a2: "\<And>w. artifact_call env2 fakesign ''/P/App.app/PlugIns/E.appex'' w =
     (Inl (Failure ''unreadable''), w)"
    by (simp add: artifact_call_def endswith_def suffix_to_prefix env2_def env1_def)
  show ?thesis
    by (simp add: mass_operate_def Let_def c e t get_executables_world1 do_call_eq p)
       (simp add: cache1_def a1 a2)
qed

text \<open>
  With no readable nested document, the sweep signs the main executable and the dynamic
  library, then stops at the extension: nothing is printed.
\<close>

theorem unreadable_metadata_aborts_sweep_witness:
  "''/P/App.app/PlugIns/E.appex'' \<in> set (cache_of bundle0 world1)
   \<and> \<not> endswith ''/P/App.app/PlugIns/E.appex'' ''.dylib''
   \<and> mass_operate env2 ''fakesigned'' fakesign bundle0 world1 =
     (Inl (Failure ''unreadable''), bundle0\<lparr>cached_executables := Some cache1\<rparr>,
      world1\<lparr>trace := [(Capability fakesign ''/P/App.app/App'', Inr True),
                        (Capability fakesign ''/P/App.app/Frameworks/t.dylib'', Inr True)]\<rparr>)
   \<and> (\<exists>e b' w'. mass_operate env2 ''fakesigned'' fakesign bundle0 world1 = (Inl e, b', w')
         \<and> out w' = out world1)"
proof -
  have c: "cached_executables bundle0 = None" by (simp add: bundle0_def)
  have h1: "''/P/App.app/PlugIns/E.appex'' \<in> set (cache_of bundle0 world1)"
    by (simp add: cache_of_def c get_executables_world1) (simp add: cache1_def)
  have h2: "\<not> endswith ''/P/App.app/PlugIns/E.appex'' ''.dylib''"
    by (simp add: endswith_def suffix_to_prefix)
  have h3: "\<forall>h. \<exists>e. read_plist env2 (''/P/App.app/PlugIns/E.appex'' @ ''/Info.plist'') None h = Inl e"
    by (simp add: env2_def)
  from unreadable_metadata_aborts_sweep [OF h1 h2 h3, of "''fakesigned''" fakesign]
  have "\<exists>e b' w'. mass_operate env2 ''fakesigned'' fakesign bundle0 world1 = (Inl e, b', w')
         \<and> out w' = out world1" by blast
  with h1 h2 mass_operate_env2 show ?thesis by (intro conjI)
qed

subsection \<open>The extension injector\<close>

lemma grows_refl: "grows Q w w"
  by (simp add: grows_def)

lemma grows_trans: "grows Q w w1 \<Longrightarrow> grows Q w1 w2 \<Longrightarrow> grows Q w w2"
  by (auto simp: grows_def)

lemma grows_print: "grows Q w w' \<Longrightarrow> grows Q w (print_line s w')"
  by (simp add: grows_def print_line_def)

lemma grows_do_call: "do_call env c w = (r, w') \<Longrightarrow> Q (c, r) \<Longrightarrow> grows Q w w'"
  by (auto simp: do_call_eq grows_def)

lemma and_then_cases:
  assumes "and_then m k w = (r, w')"
  obtains e where "m w = (Inl e, w')" "r = Inl e"
  | x w1 where "m w = (Inr x, w1)" "k x w1 = (r, w')"
  using assms by (auto simp: and_then_def split: prod.splits sum.splits)

lemma growerD: "grower Q m \<Longrightarrow> m w = (r, w') \<Longrightarrow> grows Q w w'"
  by (simp add: grower_def)

lemma grower_and_then:
  assumes "grower Q m" and "\<And>x. grower Q (k x)"
  shows "grower Q (and_then m k)"
  unfolding grower_def
proof (intro allI impI)
  fix w r w' assume "and_then m k w = (r, w')"
  then show "grows Q w w'"
  proof (cases rule: and_then_cases)
    case (1 e)
    then show ?thesis using assms(1) by (auto dest: growerD)
  next
    case (2 x w1)
    then have "grows Q w w1" "grows Q w1 w'" using assms by (auto dest: growerD)
    then show ?thesis by (rule grows_trans)
  qed
qed

lemma grower_do_call: "(\<And>r. Q (c, r)) \<Longrightarrow> grower Q (do_call env c)"
  by (auto simp: grower_def intro: grows_do_call)

lemma grower_skip: "grower Q (\<lambda>w. (x, w))"
  by (simp add: grower_def grows_refl)

lemma grower_print: "grower Q (\<lambda>w. (x, print_line s w))"
  by (simp add: grower_def grows_print grows_refl)

lemma grower_if:
  "grower Q m \<Longrightarrow> grower Q n \<Longrightarrow> grower Q (\<lambda>w. if c w then m w else n w)"
  by (simp add: grower_def)

lemma grower_inject_loop:
  assumes "\<And>d res. d \<in> set ds \<Longrightarrow> Q (InjFunc exe (reference itp d), res)"
  shows "grower Q (inject_loop env exe itp ds)"
  using assms
proof (induction ds)
  case Nil
  show ?case by (simp add: grower_def grows_refl)
next
  case (Cons d ds)
  have tl: "grower Q (inject_loop env exe itp ds)" using Cons by simp
  have hd: "grower Q (do_call env (InjFunc exe (reference itp d)))"
    using Cons.prems by (intro grower_do_call) simp
  show ?case
    unfolding grower_def
  proof (intro allI impI)
    fix w r w' assume run: "inject_loop env exe itp (d # ds) w = (r, w')"
    obtain r1 w1 where step: "do_call env (InjFunc exe (reference itp d)) w = (r1, w1)"
      by (cases "do_call env (InjFunc exe (reference itp d)) w")
    have g1: "grows Q w w1" using hd step by (rule growerD)
    show "grows Q w w'"
    proof (cases r1)
      case (Inl e)
      with step run have "w' = w1" by simp
      with g1 show ?thesis by simp
    next
      case (Inr x)
      with step run have "inject_loop env exe itp ds w1 = (r, w')" by simp
      with tl have "grows Q w1 w'" by (rule growerD)
      with g1 show ?thesis by (rule grows_trans)
    qed
  qed
qed

lemma inject_into_extension_cases:
  "inject_into_extension env appex_path tweaks itp w =
     (case new_app_bundle env appex_path (trace w) of
        Inl e \<Rightarrow> if is_Exception e
                 then (Inr (), print_line (skip_unreadable (basename appex_path)) w)
                 else (Inl e, w)
      | Inr ext \<Rightarrow>
          (case is_encrypted env (exe_path (executable ext)) (trace w) of
             Inl e \<Rightarrow> (Inl e, w)
           | Inr enc \<Rightarrow>
               if enc then (Inr (), print_line (skip_encrypted (basename appex_path)) w)
               else if dylib_keys tweaks = [] then (Inr (), w)
               else injection env appex_path (exe_path (executable ext))
                      (appex_path @ ''/cyan.entitlements'') itp (dylib_keys tweaks) w))"
  by (simp add: inject_into_extension_def injection_def dylib_keys_def Let_def
        split: sum.splits bool.splits)

lemma injection_grower:
  assumes "\<And>c res. c \<in> set (injection_calls exe ent itp ds True True) \<Longrightarrow> Q (c, res)"
  shows "grower Q (injection env appex_path exe ent itp ds)"
  unfolding injection_def
  by (intro grower_and_then grower_do_call grower_if grower_skip grower_print
        grower_inject_loop assms)
     (simp_all add: injection_calls_def)

lemma dylib_keys_set:
  "k \<in> set (dylib_keys tweaks) \<longleftrightarrow> (\<exists>v. (k, v) \<in> set tweaks) \<and> endswith k ''.dylib''"
  by (force simp: dylib_keys_def)

lemma inject_into_extension_grower:
  assumes "\<And>(ext :: app_bundle) c res. c \<in> set (injection_calls (exe_path (executable ext))
              (appex_path @ ''/cyan.entitlements'') itp (dylib_keys tweaks) True True)
            \<Longrightarrow> Q (c, res)"
  shows "grower Q (inject_into_extension env appex_path tweaks itp)"
  unfolding grower_def
proof (intro allI impI)
  fix w r w' assume run: "inject_into_extension env appex_path tweaks itp w = (r, w')"
  show "grows Q w w'"
  proof (cases "new_app_bundle env appex_path (trace w)")
    case (Inl e)
    with run show ?thesis
      by (auto simp: inject_into_extension_cases grows_refl grows_print split: if_splits)
  next
    case (Inr ext)
    show ?thesis
    proof (cases "is_encrypted env (exe_path (executable ext)) (trace w)")
      case (Inl e)
      with run Inr show ?thesis by (simp add: inject_into_extension_cases grows_refl)
    next
      case enc: (Inr enc)
      show ?thesis
      proof (cases "enc \<or> dylib_keys tweaks = []")
        case True
        with run Inr enc show ?thesis
          by (auto simp: inject_into_extension_cases grows_refl grows_print split: if_splits)
      next
        case False
        with run Inr enc
        have "injection env appex_path (exe_path (executable ext))
                (appex_path @ ''/cyan.entitlements'') itp (dylib_keys tweaks) w = (r, w')"
          by (simp add: inject_into_extension_cases)
        moreover have "grower Q (injection env appex_path (exe_path (executable ext))
                (appex_path @ ''/cyan.entitlements'') itp (dylib_keys tweaks))"
          by (rule injection_grower) (rule assms)
        ultimately show ?thesis by (rule growerD [rotated])
      qed
    qed
  qed
qed

lemma extensions_loop_grower:
  assumes "\<And>a. grower Q (inject_into_extension env a tweaks itp)"
  shows "grower Q (extensions_loop env xs tweaks itp)"
proof (induction xs)
  case Nil
  show ?case by (simp add: grower_def grows_refl)
next
  case (Cons a xs)
  show ?case
    unfolding grower_def
  proof (intro allI impI)
    fix w r w' assume run: "extensions_loop env (a # xs) tweaks itp w = (r, w')"
    obtain r1 w1 where step: "inject_into_extension env a tweaks itp w = (r1, w1)"
      by (cases "inject_into_extension env a tweaks itp w")
    have g1: "grows Q w w1" using assms step by (rule growerD)
    show "grows Q w w'"
    proof (cases r1)
      case (Inl e)
      with step run have "w' = w1" by simp
      with g1 show ?thesis by simp
    next
      case (Inr u)
      with step run have "extensions_loop env xs tweaks itp w1 = (r, w')" by simp
      with Cons.IH have "grows Q w1 w'" by (rule growerD)
      with g1 show ?thesis by (rule grows_trans)
    qed
  qed
qed

lemma inject_all_extensions_grower:
  assumes "\<And>a. grower Q (inject_into_extension env a tweaks itp)"
    and "\<And>res. Q (Inject (exe_path (executable b)) tweaks tmpdir itp, res)"
  shows "grower Q (inject_all_extensions env b tweaks tmpdir itp inject_all)"
  unfolding grower_def
proof (intro allI impI)
  fix w r w' assume run: "inject_all_extensions env b tweaks tmpdir itp inject_all w = (r, w')"
  let ?c = "Inject (exe_path (executable b)) tweaks tmpdir itp"
  obtain r1 w1 where step: "do_call env ?c w = (r1, w1)" by (cases "do_call env ?c w")
  have g1: "grows Q w w1" using step assms(2) by (rule grows_do_call)
  show "grows Q w w'"
  proof (cases r1)
    case (Inl e)
    with step run have "w' = w1" by (simp add: inject_all_extensions_def)
    with g1 show ?thesis by simp
  next
    case (Inr x)
    have "grows Q w1 w'"
    proof (cases "inject_all \<and> get_all_appex b w1 \<noteq> []")
      case True
      with Inr step run
      have "extensions_loop env (get_all_appex b w1) tweaks itp w1 = (r, w')"
        by (simp add: inject_all_extensions_def Let_def)
      with extensions_loop_grower [OF assms(1)] show ?thesis by (rule growerD)
    next
      case False
      with Inr step run show ?thesis
        by (auto simp: inject_all_extensions_def Let_def grows_refl grows_print
              split: if_splits)
    qed
    with g1 show ?thesis by (rule grows_trans)
  qed
qed

lemma split_on_no_sep: "c \<notin> set k \<Longrightarrow> split_on c k = [k]"
  by (induction k) auto

lemma no_sep_no_ascent: "CHR ''/'' \<notin> set k \<Longrightarrow> \<not> sublist ''../../'' k"
  using set_mono_sublist [of "''../../''" k] by auto

lemma rpath_reference:
  "str_in ''../../'' (''@rpath/'' @ k) \<longleftrightarrow> str_in ''../../'' k"
  by (simp add: str_in_def sublist_Cons_right)

lemma executable_path_reference: "str_in ''../../'' (''@executable_path/../../'' @ k)"
  unfolding str_in_def sublist_def
  by (rule exI [of _ "''@executable_path/''"], rule exI [of _ k]) simp

lemma reference_components:
  "split_on (CHR ''/'') (reference itp k) =
     (if itp then [''@executable_path'', ''..'', ''..''] else [''@rpath''])
       @ split_on (CHR ''/'') k"
  by (simp add: reference_def)

lemma inject_loop_ok:
  "inject_loop env exe itp ds w = (Inr u, w') \<Longrightarrow>
     \<exists>evs. w' = w\<lparr>trace := trace w @ evs\<rparr>
        \<and> map fst evs = map (\<lambda>d. InjFunc exe (reference itp d)) ds"
proof (induction ds arbitrary: w)
  case Nil
  then show ?case by simp
next
  case (Cons d ds)
  let ?c = "InjFunc exe (reference itp d)"
  from Cons.prems obtain x where
    p: "perform env ?c (trace w) = Inr x"
    and rest: "inject_loop env exe itp ds (w\<lparr>trace := trace w @ [(?c, Inr x)]\<rparr>) = (Inr u, w')"
    by (auto simp: do_call_eq split: sum.splits)
  from Cons.IH [OF rest] obtain evs where
    "w' = w\<lparr>trace := trace w @ [(?c, Inr x)] @ evs\<rparr>"
    "map fst evs = map (\<lambda>d. InjFunc exe (reference itp d)) ds" by auto
  then have "w' = w\<lparr>trace := trace w @ ((?c, Inr x) # evs)\<rparr>
     \<and> map fst ((?c, Inr x) # evs) = map (\<lambda>d. InjFunc exe (reference itp d)) (d # ds)"
    by simp
  then show ?case by blast
qed

lemma injection_ok:
  assumes "injection env appex exe ent itp ds w = (Inr u, w')"
  shows "\<exists>has_ent evs.
           perform env (WriteEntitlements exe ent) (trace w) = Inr has_ent
         \<and> w' = w\<lparr>trace := trace w @ evs, out := out w @ [injected_line (basename appex)]\<rparr>
         \<and> map fst evs = injection_calls exe ent itp ds
              (has_inj env exe (trace w @ take (2 + length ds) evs)) has_ent"
proof -
  from assms obtain has_ent w1 x2 w2 x3 w3 x4 w4 x5 w5 where
    s1: "do_call env (WriteEntitlements exe ent) w = (Inr has_ent, w1)"
    and s2: "do_call env (RemoveSignature exe) w1 = (Inr x2, w2)"
    and s3: "inject_loop env exe itp ds w2 = (Inr x3, w3)"
    and s4: "(if has_inj env exe (trace w3) then do_call env (InjWrite exe) w3
              else (Inr True, w3)) = (Inr x4, w4)"
    and s5: "(if has_ent then do_call env (SignWithEntitlements exe ent) w4
              else (Inr True, w4)) = (Inr x5, w5)"
    and s6: "w' = print_line (injected_line (basename appex)) w5"
    unfolding injection_def by (auto simp: and_then_def split: prod.splits sum.splits)
  let ?e1 = "(WriteEntitlements exe ent, Inr has_ent :: error + bool)"
  let ?e2 = "(RemoveSignature exe, Inr x2 :: error + bool)"
  from s1 have p1: "perform env (WriteEntitlements exe ent) (trace w) = Inr has_ent"
    and w1: "w1 = w\<lparr>trace := trace w @ [?e1]\<rparr>" by (auto simp: do_call_eq)
  from s2 w1 have w2: "w2 = w\<lparr>trace := trace w @ [?e1, ?e2]\<rparr>" by (auto simp: do_call_eq)
  from inject_loop_ok [OF s3] w2 obtain evs3 where
    w3: "w3 = w\<lparr>trace := trace w @ [?e1, ?e2] @ evs3\<rparr>"
    and m3: "map fst evs3 = map (\<lambda>d. InjFunc exe (reference itp d)) ds" by auto
  from m3 have len3: "length evs3 = length ds" by (metis length_map)
  define flush where "flush = has_inj env exe (trace w3)"
  define evs4 where "evs4 = (if flush then [(InjWrite exe, Inr x4 :: error + bool)] else [])"
  from s4 w3 have w4: "w4 = w\<lparr>trace := trace w @ [?e1, ?e2] @ evs3 @ evs4\<rparr>"
    by (auto simp: do_call_eq evs4_def flush_def split: if_splits)
  define evs5 where
    "evs5 = (if has_ent then [(SignWithEntitlements exe ent, Inr x5 :: error + bool)] else [])"
  from s5 w4 have w5: "w5 = w\<lparr>trace := trace w @ [?e1, ?e2] @ evs3 @ evs4 @ evs5\<rparr>"
    by (auto simp: do_call_eq evs5_def split: if_splits)
  let ?evs = "[?e1, ?e2] @ evs3 @ evs4 @ evs5"
  have tk: "take (2 + length ds) ?evs = [?e1, ?e2] @ evs3" using len3 by simp
  have fl: "has_inj env exe (trace w @ take (2 + length ds) ?evs) = flush"
    unfolding tk flush_def w3 by simp
  have shape: "map fst ?evs = injection_calls exe ent itp ds flush has_ent"
    by (simp add: injection_calls_def m3 evs4_def evs5_def)
  have fin: "w' = w\<lparr>trace := trace w @ ?evs, out := out w @ [injected_line (basename appex)]\<rparr>"
    using s6 w5 by (simp add: print_line_def)
  show ?thesis
  proof (intro exI conjI)
    show "perform env (WriteEntitlements exe ent) (trace w) = Inr has_ent" by (rule p1)
    show "w' = w\<lparr>trace := trace w @ ?evs, out := out w @ [injected_line (basename appex)]\<rparr>"
      by (rule fin)
    show "map fst ?evs = injection_calls exe ent itp ds
              (has_inj env exe (trace w @ take (2 + length ds) ?evs)) has_ent"
      unfolding fl by (rule shape)
  qed
qed

text \<open>
  \<^bold>\<open>C4\<close>, amended. Every load-command reference that \<^verbatim>\<open>inject_all_extensions\<close> appends to an
  extension's executable, in runs that complete and in runs that raise, names a key of the
  tweak set that ends in \<^verbatim>\<open>.dylib\<close>. Under the path-relative strategy it is
  \<^verbatim>\<open>@executable_path/../../\<close> followed by the key and so contains \<^verbatim>\<open>../../\<close>; under the
  run-path strategy it is \<^verbatim>\<open>@rpath/\<close> followed by the key. For a key without a slash (a
  plain file name) the reference contains \<^verbatim>\<open>../../\<close> exactly under the path-relative
  strategy, where its components are the anchor, two ascents and the key; under the
  run-path strategy they are the anchor and the key.
\<close>

theorem extension_references:
  assumes "inject_all_extensions env b tweaks tmpdir itp inject_all w = (r, w')"
  shows "\<exists>evs. trace w' = trace w @ evs
     \<and> (\<forall>ev\<in>set evs. \<forall>exe ref. fst ev = InjFunc exe ref \<longrightarrow>
          (\<exists>k v. (k, v) \<in> set tweaks \<and> endswith k ''.dylib''
             \<and> ref = (if itp then ''@executable_path/../../'' @ k else ''@rpath/'' @ k)
             \<and> (itp \<longrightarrow> str_in ''../../'' ref)
             \<and> (CHR ''/'' \<notin> set k \<longrightarrow>
                   (str_in ''../../'' ref \<longleftrightarrow> itp)
                 \<and> split_on (CHR ''/'') ref =
                     (if itp then [''@executable_path'', ''..'', ''..'', k]
                      else [''@rpath'', k]))))"
proof -
  define good where "good ref \<longleftrightarrow>
     (\<exists>k v. (k, v) \<in> set tweaks \<and> endswith k ''.dylib''
             \<and> ref = (if itp then ''@executable_path/../../'' @ k else ''@rpath/'' @ k)
             \<and> (itp \<longrightarrow> str_in ''../../'' ref)
             \<and> (CHR ''/'' \<notin> set k \<longrightarrow>
                   (str_in ''../../'' ref \<longleftrightarrow> itp)
                 \<and> split_on (CHR ''/'') ref =
                     (if itp then [''@executable_path'', ''..'', ''..'', k]
                      else [''@rpath'', k])))" for ref
  define Q where "Q ev \<longleftrightarrow> (\<forall>exe ref. fst ev = InjFunc exe ref \<longrightarrow> good ref)"
    for ev :: "call \<times> (error + bool)"
  have key: "good (reference itp k)" if "k \<in> set (dylib_keys tweaks)" for k
  proof -
    from that obtain v where kv: "(k, v) \<in> set tweaks" and dy: "endswith k ''.dylib''"
      by (auto simp: dylib_keys_set)
    have r: "reference itp k = (if itp then ''@executable_path/../../'' @ k else ''@rpath/'' @ k)"
      by (simp add: reference_def)
    have a: "itp \<longrightarrow> str_in ''../../'' (reference itp k)"
      using executable_path_reference [of k] by (simp add: reference_def)
    have b: "(str_in ''../../'' (reference itp k) \<longleftrightarrow> itp)
        \<and> split_on (CHR ''/'') (reference itp k) =
             (if itp then [''@executable_path'', ''..'', ''..'', k] else [''@rpath'', k])"
      if "CHR ''/'' \<notin> set k"
    proof -
      from that have "\<not> str_in ''../../'' k" by (simp add: str_in_def no_sep_no_ascent)
      then have "str_in ''../../'' (reference itp k) \<longleftrightarrow> itp"
        using rpath_reference [of k] executable_path_reference [of k]
        by (simp add: reference_def)
      moreover have "split_on (CHR ''/'') (reference itp k) =
             (if itp then [''@executable_path'', ''..'', ''..'', k] else [''@rpath'', k])"
        using that by (simp add: reference_components split_on_no_sep)
      ultimately show ?thesis by simp
    qed
    show ?thesis
      unfolding good_def
    proof (rule exI [of _ k], rule exI [of _ v], intro conjI)
      show "(k, v) \<in> set tweaks" by (rule kv)
      show "endswith k ''.dylib''" by (rule dy)
      show "reference itp k = (if itp then ''@executable_path/../../'' @ k else ''@rpath/'' @ k)"
        by (rule r)
      show "itp \<longrightarrow> str_in ''../../'' (reference itp k)" by (rule a)
      show "CHR ''/'' \<notin> set k \<longrightarrow>
              (str_in ''../../'' (reference itp k) \<longleftrightarrow> itp)
            \<and> split_on (CHR ''/'') (reference itp k) =
                 (if itp then [''@executable_path'', ''..'', ''..'', k] else [''@rpath'', k])"
        using b by (rule impI)
    qed
  qed
  have ext: "grower Q (inject_into_extension env a tweaks itp)" for a
  proof (rule inject_into_extension_grower)
    fix ext :: app_bundle and c res
    assume "c \<in> set (injection_calls (exe_path (executable ext))
              (a @ ''/cyan.entitlements'') itp (dylib_keys tweaks) True True)"
    then show "Q (c, res)" by (auto simp: Q_def injection_calls_def key)
  qed
  have "grower Q (inject_all_extensions env b tweaks tmpdir itp inject_all)"
    by (rule inject_all_extensions_grower [OF ext]) (simp add: Q_def)
  then have "grows Q w w'" using assms by (rule growerD)
  then obtain evs where tr: "trace w' = trace w @ evs" and all: "list_all Q evs"
    by (auto simp: grows_def)
  from all have good: "\<forall>ev\<in>set evs. \<forall>exe ref. fst ev = InjFunc exe ref \<longrightarrow> good ref"
    by (simp add: list_all_iff Q_def)
  show ?thesis
  proof (intro exI conjI)
    show "trace w' = trace w @ evs" by (rule tr)
    show "\<forall>ev\<in>set evs. \<forall>exe ref. fst ev = InjFunc exe ref \<longrightarrow>
          (\<exists>k v. (k, v) \<in> set tweaks \<and> endswith k ''.dylib''
             \<and> ref = (if itp then ''@executable_path/../../'' @ k else ''@rpath/'' @ k)
             \<and> (itp \<longrightarrow> str_in ''../../'' ref)
             \<and> (CHR ''/'' \<notin> set k \<longrightarrow>
                   (str_in ''../../'' ref \<longleftrightarrow> itp)
                 \<and> split_on (CHR ''/'') ref =
                     (if itp then [''@executable_path'', ''..'', ''..'', k]
                      else [''@rpath'', k])))"
      using good unfolding good_def .
  qed
qed

text \<open>
  \<^bold>\<open>C5.\<close> When \<^verbatim>\<open>_inject_into_extension\<close> goes through with an injection, the calls it makes
  on the extension's executable are, in this order: write the entitlements to the side
  file, remove the signature, append one load command per dynamic-library key, flush the
  accumulated edits (when the engine holds an accumulator at that point), and last, if and
  only if writing the entitlements reported that some existed, sign with the side file.
  So every load-command edit and the flush precede the re-sign, and without entitlements
  no signing call is made.
\<close>

theorem flush_before_resign:
  fixes ext :: app_bundle
  assumes "new_app_bundle env appex_path (trace w) = Inr ext"
    and "is_encrypted env (exe_path (executable ext)) (trace w) = Inr False"
    and "dylib_keys tweaks \<noteq> []"
    and "inject_into_extension env appex_path tweaks itp w = (Inr (), w')"
  shows "\<exists>has_entitlements evs.
           perform env (WriteEntitlements (exe_path (executable ext))
                          (appex_path @ ''/cyan.entitlements'')) (trace w)
             = Inr has_entitlements
         \<and> trace w' = trace w @ evs
         \<and> map fst evs =
             [WriteEntitlements (exe_path (executable ext)) (appex_path @ ''/cyan.entitlements''),
              RemoveSignature (exe_path (executable ext))]
             @ map (\<lambda>d. InjFunc (exe_path (executable ext)) (reference itp d)) (dylib_keys tweaks)
             @ (if has_inj env (exe_path (executable ext))
                     (trace w @ take (2 + length (dylib_keys tweaks)) evs)
                then [InjWrite (exe_path (executable ext))] else [])
             @ (if has_entitlements
                then [SignWithEntitlements (exe_path (executable ext))
                        (appex_path @ ''/cyan.entitlements'')]
                else [])
         \<and> (SignWithEntitlements (exe_path (executable ext))
               (appex_path @ ''/cyan.entitlements'') \<in> fst ` set evs
              \<longleftrightarrow> has_entitlements)"
proof -
  let ?exe = "exe_path (executable ext)"
  let ?ent = "appex_path @ ''/cyan.entitlements''"
  from assms have "injection env appex_path ?exe ?ent itp (dylib_keys tweaks) w = (Inr (), w')"
    by (simp add: inject_into_extension_cases)
  from injection_ok [OF this] obtain has_ent evs where
    p: "perform env (WriteEntitlements ?exe ?ent) (trace w) = Inr has_ent"
    and w': "w' = w\<lparr>trace := trace w @ evs, out := out w @ [injected_line (basename appex_path)]\<rparr>"
    and shape: "map fst evs = injection_calls ?exe ?ent itp (dylib_keys tweaks)
              (has_inj env ?exe (trace w @ take (2 + length (dylib_keys tweaks)) evs)) has_ent"
    by blast
  have "fst ` set evs = set (map fst evs)" by simp
  also have "SignWithEntitlements ?exe ?ent \<in> set (map fst evs) \<longleftrightarrow> has_ent"
    unfolding shape by (auto simp: injection_calls_def)
  finally have sign: "SignWithEntitlements ?exe ?ent \<in> fst ` set evs \<longleftrightarrow> has_ent" .
  from w' have "trace w' = trace w @ evs" by simp
  with p shape sign show ?thesis unfolding injection_calls_def by blast
qed

text \<open>
  \<^bold>\<open>C10.\<close> If no key of the tweak set ends in \<^verbatim>\<open>.dylib\<close>, then \<^verbatim>\<open>_inject_into_extension\<close>
  makes no call on the executable (no side file is written, no signature removed, no load
  command appended) and leaves the tree as it is; for a readable extension that is not
  encrypted it returns with the world unchanged.
\<close>

theorem no_dylib_no_mutation:
  assumes "\<forall>(k, v)\<in>set tweaks. \<not> endswith k ''.dylib''"
  shows "\<exists>r w'. inject_into_extension env appex_path tweaks itp w = (r, w')
     \<and> trace w' = trace w \<and> fs w' = fs w
     \<and> (\<forall>ext :: app_bundle.
          new_app_bundle env appex_path (trace w) = Inr ext
          \<and> is_encrypted env (exe_path (executable ext)) (trace w) = Inr False
          \<longrightarrow> r = Inr () \<and> w' = w)"
proof -
  from assms have none: "dylib_keys tweaks = []"
    by (auto simp: dylib_keys_def filter_empty_conv)
  show ?thesis
    by (cases "new_app_bundle env appex_path (trace w)")
       (auto simp: inject_into_extension_cases none print_line_def split: sum.splits)
qed

lemma extensions_loop_append:
  "extensions_loop env (xs @ ys) tweaks itp w =
     (case extensions_loop env xs tweaks itp w of
        (Inl e, w1) \<Rightarrow> (Inl e, w1)
      | (Inr u, w1) \<Rightarrow> extensions_loop env ys tweaks itp w1)"
proof (induction xs arbitrary: w)
  case Nil
  show ?case by simp
next
  case (Cons x xs)
  show ?case
    by (cases "inject_into_extension env x tweaks itp w") (simp add: Cons.IH split: sum.splits)
qed

lemma answered_append:
  "answered env h (xs @ ys) \<longleftrightarrow> answered env h xs \<and> answered env (h @ xs) ys"
  by (induction xs arbitrary: h) auto

lemma raises_through_do_call: "raises_through env (do_call env c)"
  unfolding raises_through_def
proof (intro allI impI)
  fix w r w' assume "do_call env c w = (r, w')"
  then have r: "r = perform env c (trace w)" and w': "trace w' = trace w @ [(c, r)]"
    by (auto simp: do_call_eq)
  show "\<exists>evs. trace w' = trace w @ evs \<and> answered env (trace w) evs
           \<and> (\<forall>c e. (c, Inl e) \<in> set evs \<longrightarrow> r = Inl e)
           \<and> (\<forall>e. r = Inl e \<longrightarrow> evs \<noteq> [] \<and> snd (last evs) = Inl e)"
    by (rule exI [of _ "[(c, r)]"]) (simp add: r w')
qed

lemma raises_through_return: "raises_through env (\<lambda>w. (Inr x, w))"
  unfolding raises_through_def by (auto intro: exI [of _ "[]"])

lemma raises_through_print: "raises_through env (\<lambda>w. (Inr x, print_line s w))"
  unfolding raises_through_def by (auto simp: print_line_def intro: exI [of _ "[]"])

lemma raises_through_if:
  "raises_through env m \<Longrightarrow> raises_through env n
     \<Longrightarrow> raises_through env (\<lambda>w. if c w then m w else n w)"
  by (simp add: raises_through_def)

lemma raises_through_and_then:
  fixes m :: "'a action" and k :: "'a \<Rightarrow> 'b action"
  assumes m: "raises_through env m" and k: "\<And>x. raises_through env (k x)"
  shows "raises_through env (and_then m k)"
  unfolding raises_through_def
proof (intro allI impI)
  fix w r w' assume "and_then m k w = (r, w')"
  then show "\<exists>evs. trace w' = trace w @ evs \<and> answered env (trace w) evs
           \<and> (\<forall>c e. (c, Inl e) \<in> set evs \<longrightarrow> r = Inl e)
           \<and> (\<forall>e. r = Inl e \<longrightarrow> evs \<noteq> [] \<and> snd (last evs) = Inl e)"
  proof (cases rule: and_then_cases)
    case (1 e1)
    from m [unfolded raises_through_def, rule_format, OF 1(1)]
    show ?thesis unfolding 1(2) by simp
  next
    case (2 x w1)
    from m [unfolded raises_through_def, rule_format, OF 2(1)] obtain evs1 where
      t1: "trace w1 = trace w @ evs1" and a1: "answered env (trace w) evs1"
      and e1: "\<forall>c e. (c, Inl e) \<in> set evs1 \<longrightarrow> (Inr x :: error + 'a) = Inl e"
      by (elim exE conjE)
    from k [unfolded raises_through_def, rule_format, OF 2(2)] obtain evs2 where
      t2: "trace w' = trace w1 @ evs2" and a2: "answered env (trace w1) evs2"
      and e2: "\<forall>c e. (c, Inl e) \<in> set evs2 \<longrightarrow> r = Inl e"
      and l2: "\<forall>e. r = Inl e \<longrightarrow> evs2 \<noteq> [] \<and> snd (last evs2) = Inl e"
      by (elim exE conjE)
    from e1 have none: "\<And>c e. (c, Inl e) \<notin> set evs1" by simp
    show ?thesis
    proof (intro exI [of _ "evs1 @ evs2"] conjI allI impI)
      show "trace w' = trace w @ evs1 @ evs2" using t1 t2 by simp
      show "answered env (trace w) (evs1 @ evs2)" using a1 a2 t1 by (simp add: answered_append)
    next
      fix c e assume "(c, Inl e) \<in> set (evs1 @ evs2)"
      with none have "(c, Inl e) \<in> set evs2" by simp
      with e2 show "r = Inl e" by simp
    next
      fix e assume "r = Inl e"
      with l2 show "evs1 @ evs2 \<noteq> []" by simp
    next
      fix e assume "r = Inl e"
      with l2 show "snd (last (evs1 @ evs2)) = Inl e" by simp
    qed
  qed
qed

lemma raises_through_inject_loop: "raises_through env (inject_loop env exe itp ds)"
proof (induction ds)
  case Nil
  have "inject_loop env exe itp [] = (\<lambda>w. (Inr (), w))" by (rule ext) simp
  then show ?case by (simp add: raises_through_return)
next
  case (Cons d ds)
  have "inject_loop env exe itp (d # ds) =
          and_then (do_call env (InjFunc exe (reference itp d)))
            (\<lambda>r. inject_loop env exe itp ds)"
    by (rule ext) (simp add: and_then_def split: prod.splits sum.splits)
  then show ?case
    using Cons.IH by (simp add: raises_through_and_then raises_through_do_call)
qed

lemma raises_through_injection:
  "raises_through env (injection env appex_path exe ent itp ds)"
  unfolding injection_def
  by (intro raises_through_and_then raises_through_do_call raises_through_if
        raises_through_return raises_through_print raises_through_inject_loop)

lemma raises_through_inject_into_extension:
  assumes "inject_into_extension env a tweaks itp w = (r, w')"
  shows "\<exists>evs. trace w' = trace w @ evs \<and> answered env (trace w) evs
           \<and> (\<forall>c e. (c, Inl e) \<in> set evs \<longrightarrow> r = Inl e)"
proof -
  have skip: ?thesis if "trace w' = trace w"
    using that by (intro exI [of _ "[]"]) simp
  show ?thesis
  proof (cases "new_app_bundle env a (trace w)")
    case (Inl e)
    with assms have "trace w' = trace w"
      by (auto simp: inject_into_extension_cases print_line_def split: if_splits)
    then show ?thesis by (rule skip)
  next
    case (Inr ext)
    show ?thesis
    proof (cases "is_encrypted env (exe_path (executable ext)) (trace w)")
      case (Inl e)
      with assms Inr have "trace w' = trace w" by (simp add: inject_into_extension_cases)
      then show ?thesis by (rule skip)
    next
      case enc: (Inr enc)
      show ?thesis
      proof (cases "enc \<or> dylib_keys tweaks = []")
        case True
        with assms Inr enc have "trace w' = trace w"
          by (auto simp: inject_into_extension_cases print_line_def split: if_splits)
        then show ?thesis by (rule skip)
      next
        case False
        with assms Inr enc
        have "injection env a (exe_path (executable ext))
                (a @ ''/cyan.entitlements'') itp (dylib_keys tweaks) w = (r, w')"
          by (simp add: inject_into_extension_cases)
        from raises_through_injection [unfolded raises_through_def, rule_format, OF this]
        show ?thesis by (elim exE conjE) (intro exI conjI)
      qed
    qed
  qed
qed

lemma injection_first_call:
  assumes "injection env appex exe ent itp ds w = (r, w')"
  shows "\<exists>evs. trace w' = trace w @
           (WriteEntitlements exe ent, perform env (WriteEntitlements exe ent) (trace w)) # evs"
  using assms unfolding injection_def
proof (cases rule: and_then_cases)
  case (1 e)
  then show ?thesis by (auto simp: do_call_eq)
next
  case (2 x w1)
  from 2(1) have w1: "trace w1 = trace w @
      [(WriteEntitlements exe ent, perform env (WriteEntitlements exe ent) (trace w))]"
    by (auto simp: do_call_eq)
  have "grower (\<lambda>ev. True)
     (and_then (do_call env (RemoveSignature exe))
       (\<lambda>_.
     and_then (inject_loop env exe itp ds)
       (\<lambda>_.
     and_then (\<lambda>w3. if has_inj env exe (trace w3)
                     then do_call env (InjWrite exe) w3 else (Inr True, w3))
       (\<lambda>_.
     and_then (\<lambda>w4. if x
                     then do_call env (SignWithEntitlements exe ent) w4
                     else (Inr True, w4))
       (\<lambda>_ w5. (Inr (), print_line (injected_line (basename appex)) w5))))))"
    by (intro grower_and_then grower_do_call grower_if grower_skip grower_print
          grower_inject_loop) simp_all
  from growerD [OF this 2(2)] obtain evs where "trace w' = trace w1 @ evs"
    by (auto simp: grows_def)
  with w1 show ?thesis by simp
qed

lemma injection_raise_is_last:
  assumes "injection env appex exe ent itp ds w = (Inl e, w')"
  shows "\<exists>evs c. trace w' = trace w @ evs @ [(c, Inl e)]"
proof -
  from raises_through_injection [unfolded raises_through_def, rule_format, OF assms]
  obtain evs where t: "trace w' = trace w @ evs"
    and l: "\<forall>e'. (Inl e :: error + unit) = Inl e' \<longrightarrow> evs \<noteq> [] \<and> snd (last evs) = Inl e'"
    by (elim exE conjE)
  from l have ne: "evs \<noteq> []" and le: "snd (last evs) = Inl e" by simp_all
  from ne have "evs = butlast evs @ [last evs]" by simp
  moreover from le have "last evs = (fst (last evs), Inl e)" by (cases "last evs") simp
  ultimately have "evs = butlast evs @ [(fst (last evs), Inl e)]" by simp
  with t have "trace w' = trace w @ butlast evs @ [(fst (last evs), Inl e)]" by simp
  then show ?thesis by blast
qed

text \<open>
  \<^bold>\<open>C3\<close>, amended. In the loop of \<^verbatim>\<open>inject_all_extensions\<close>, an extension whose package view
  cannot be constructed (an exception that \<^verbatim>\<open>except Exception\<close> catches) or whose executable
  reports itself encrypted is abandoned alone: the loop prints the skip line and goes on
  with the siblings after it, in the same world. An error of a signing or injection
  primitive is not caught. In every run of \<^verbatim>\<open>_inject_into_extension\<close> the recorded outcomes
  are the engine's answers, and a call recorded with an error makes that error the result
  of the method and of the loop, which ends there without processing the siblings after
  that extension. For a readable extension that is not encrypted, with something to
  inject, the entitlements are always asked for first, and a run that raises ends with the
  call that raised, whichever primitive it was.
\<close>

theorem skipped_extension_is_isolated:
  "(\<forall>pre post w u w1.
       extensions_loop env pre tweaks itp w = (Inr u, w1)
       \<and> ((\<exists>e. new_app_bundle env a (trace w1) = Inl e \<and> is_Exception e)
          \<or> (\<exists>ext :: app_bundle. new_app_bundle env a (trace w1) = Inr ext
                \<and> is_encrypted env (exe_path (executable ext)) (trace w1) = Inr True))
       \<longrightarrow> extensions_loop env (pre @ a # post) tweaks itp w =
             extensions_loop env post tweaks itp
               (print_line (case new_app_bundle env a (trace w1) of
                              Inl e \<Rightarrow> skip_unreadable (basename a)
                            | Inr ext \<Rightarrow> skip_encrypted (basename a)) w1))
   \<and> (\<forall>post e w1 w2.
         inject_into_extension env a tweaks itp w1 = (Inl e, w2)
         \<longrightarrow> extensions_loop env (a # post) tweaks itp w1 = (Inl e, w2))
   \<and> (\<forall>w1 r w2.
         inject_into_extension env a tweaks itp w1 = (r, w2)
         \<longrightarrow> (\<exists>evs. trace w2 = trace w1 @ evs \<and> answered env (trace w1) evs
                \<and> (\<forall>c e. (c, Inl e) \<in> set evs
                      \<longrightarrow> r = Inl e
                        \<and> (\<forall>post. extensions_loop env (a # post) tweaks itp w1 = (Inl e, w2)))))
   \<and> (\<forall>(ext :: app_bundle) w1 r w2.
         new_app_bundle env a (trace w1) = Inr ext
         \<and> is_encrypted env (exe_path (executable ext)) (trace w1) = Inr False
         \<and> dylib_keys tweaks \<noteq> []
         \<and> inject_into_extension env a tweaks itp w1 = (r, w2)
         \<longrightarrow> (\<exists>evs. trace w2 = trace w1 @
                  (WriteEntitlements (exe_path (executable ext)) (a @ ''/cyan.entitlements''),
                   perform env (WriteEntitlements (exe_path (executable ext))
                                  (a @ ''/cyan.entitlements'')) (trace w1)) # evs)
             \<and> (\<forall>e. r = Inl e \<longrightarrow> (\<exists>evs c. trace w2 = trace w1 @ evs @ [(c, Inl e)])))"
proof (intro conjI allI impI)
  fix pre post w u w1
  assume h: "extensions_loop env pre tweaks itp w = (Inr u, w1)
       \<and> ((\<exists>e. new_app_bundle env a (trace w1) = Inl e \<and> is_Exception e)
          \<or> (\<exists>ext :: app_bundle. new_app_bundle env a (trace w1) = Inr ext
                \<and> is_encrypted env (exe_path (executable ext)) (trace w1) = Inr True))"
  let ?line = "case new_app_bundle env a (trace w1) of
                 Inl e \<Rightarrow> skip_unreadable (basename a)
               | Inr ext \<Rightarrow> skip_encrypted (basename a)"
  from h have "inject_into_extension env a tweaks itp w1 = (Inr (), print_line ?line w1)"
    by (auto simp: inject_into_extension_cases)
  with h show "extensions_loop env (pre @ a # post) tweaks itp w =
             extensions_loop env post tweaks itp (print_line ?line w1)"
    by (simp add: extensions_loop_append)
next
  fix post e w1 w2
  assume "inject_into_extension env a tweaks itp w1 = (Inl e, w2)"
  then show "extensions_loop env (a # post) tweaks itp w1 = (Inl e, w2)" by simp
next
  fix w1 r w2
  assume run: "inject_into_extension env a tweaks itp w1 = (r, w2)"
  from raises_through_inject_into_extension [OF run] obtain evs where
    t: "trace w2 = trace w1 @ evs" and an: "answered env (trace w1) evs"
    and er: "\<forall>c e. (c, Inl e) \<in> set evs \<longrightarrow> r = Inl e" by (elim exE conjE)
  show "\<exists>evs. trace w2 = trace w1 @ evs \<and> answered env (trace w1) evs
                \<and> (\<forall>c e. (c, Inl e) \<in> set evs
                      \<longrightarrow> r = Inl e
                        \<and> (\<forall>post. extensions_loop env (a # post) tweaks itp w1 = (Inl e, w2)))"
  proof (intro exI [of _ evs] conjI allI impI)
    show "trace w2 = trace w1 @ evs" by (rule t)
    show "answered env (trace w1) evs" by (rule an)
  next
    fix c e assume "(c, Inl e) \<in> set evs"
    with er show "r = Inl e" by simp
  next
    fix c e post assume "(c, Inl e) \<in> set evs"
    with er have "r = Inl e" by simp
    with run show "extensions_loop env (a # post) tweaks itp w1 = (Inl e, w2)" by simp
  qed
next
  fix ext :: app_bundle and w1 r w2
  assume h: "new_app_bundle env a (trace w1) = Inr ext
         \<and> is_encrypted env (exe_path (executable ext)) (trace w1) = Inr False
         \<and> dylib_keys tweaks \<noteq> []
         \<and> inject_into_extension env a tweaks itp w1 = (r, w2)"
  then have "injection env a (exe_path (executable ext)) (a @ ''/cyan.entitlements'') itp
               (dylib_keys tweaks) w1 = (r, w2)"
    by (auto simp: inject_into_extension_cases)
  then show "\<exists>evs. trace w2 = trace w1 @
                  (WriteEntitlements (exe_path (executable ext)) (a @ ''/cyan.entitlements''),
                   perform env (WriteEntitlements (exe_path (executable ext))
                                  (a @ ''/cyan.entitlements'')) (trace w1)) # evs"
    by (rule injection_first_call)
next
  fix ext :: app_bundle and w1 r w2 e
  assume h: "new_app_bundle env a (trace w1) = Inr ext
         \<and> is_encrypted env (exe_path (executable ext)) (trace w1) = Inr False
         \<and> dylib_keys tweaks \<noteq> []
         \<and> inject_into_extension env a tweaks itp w1 = (r, w2)"
    and r: "r = Inl e"
  then have "injection env a (exe_path (executable ext)) (a @ ''/cyan.entitlements'') itp
               (dylib_keys tweaks) w1 = (Inl e, w2)"
    by (auto simp: inject_into_extension_cases)
  then show "\<exists>evs c. trace w2 = trace w1 @ evs @ [(c, Inl e)]"
    by (rule injection_raise_is_last)
qed

lemma get_all_appex_world3: "get_all_appex bundle0 world3 = [appexA, appexB]"
  by (simp add: glob_eval bundle0_def world3_def appexA_def appexB_def str_eval)

lemma dylib_keys_tweaks3: "dylib_keys tweaks3 = [''t.dylib'']"
  by (simp add: dylib_keys_def tweaks3_def endswith_def suffix_to_prefix)

lemma basename_appex: "basename appexA = ''A.appex''" "basename appexB = ''B.appex''"
  by (simp_all add: basename_def appexA_def appexB_def)

lemma appex_distinct: "appexA \<noteq> appexB"
  by (simp add: appexA_def appexB_def)

lemma new_app_bundle_env3:
  "new_app_bundle env3 appexA h = Inr bundleA" "new_app_bundle env3 appexB h = Inr bundleB"
  using appex_distinct
  by (simp_all add: new_app_bundle_def env3_def plist_of_def bundleA_def bundleB_def)

lemma new_app_bundle_env4:
  "new_app_bundle env4 appexA h = Inr bundleA" "new_app_bundle env4 appexB h = Inr bundleB"
  using appex_distinct
  by (simp_all add: new_app_bundle_def env4_def env3_def plist_of_def bundleA_def bundleB_def)

lemma new_app_bundle_env5:
  "new_app_bundle env5 appexA h = Inl (Failure ''unreadable'')"
  "new_app_bundle env5 appexB h = Inr bundleB"
  using appex_distinct
  by (simp_all add: new_app_bundle_def env5_def env3_def plist_of_def bundleB_def)

lemma exe_bundles: "exe_path (executable bundleA) = appexA @ ''/A''"
  "exe_path (executable bundleB) = appexB @ ''/B''"
  by (simp_all add: bundleA_def bundleB_def)

lemma env3_answers: "is_encrypted env3 p h = Inr False" "has_inj env3 p h" "perform env3 c h = Inr True"
  "is_encrypted env5 p h = Inr False" "has_inj env5 p h" "perform env5 c h = Inr True"
  "is_encrypted env4 p h = Inr False" "has_inj env4 p h"
  by (simp_all add: env3_def env4_def env5_def)

lemma inject_env3:
  "inject_into_extension env3 appexA tweaks3 False w =
     (Inr (), w\<lparr>trace := trace w @ ok_events appexA ''A'', out := out w @ [injected_line ''A.appex'']\<rparr>)"
  "inject_into_extension env3 appexB tweaks3 False w =
     (Inr (), w\<lparr>trace := trace w @ ok_events appexB ''B'', out := out w @ [injected_line ''B.appex'']\<rparr>)"
  by (simp_all add: inject_into_extension_cases new_app_bundle_env3 exe_bundles env3_answers
        dylib_keys_tweaks3 injection_def and_then_def do_call_eq basename_appex reference_def
        ok_events_def print_line_def)

lemma inject_env5:
  "inject_into_extension env5 appexB tweaks3 False w =
     (Inr (), w\<lparr>trace := trace w @ ok_events appexB ''B'', out := out w @ [injected_line ''B.appex'']\<rparr>)"
  by (simp_all add: inject_into_extension_cases new_app_bundle_env5 exe_bundles env3_answers
        dylib_keys_tweaks3 injection_def and_then_def do_call_eq basename_appex reference_def
        ok_events_def print_line_def)

lemma perform_env4:
  "perform env4 c h =
     (if c = WriteEntitlements (appexA @ ''/A'') (appexA @ ''/cyan.entitlements'')
      then Inl (Failure ''ldid'') else Inr True)"
  by (simp add: env4_def)

lemma inject_env4:
  "inject_into_extension env4 appexA tweaks3 False w =
     (Inl (Failure ''ldid''),
      w\<lparr>trace := trace w @ [(WriteEntitlements (appexA @ ''/A'') (appexA @ ''/cyan.entitlements''),
                               Inl (Failure ''ldid''))]\<rparr>)"
  by (simp add: inject_into_extension_cases new_app_bundle_env4 exe_bundles env3_answers
        dylib_keys_tweaks3 injection_def and_then_def do_call_eq perform_env4)

lemma inject_all_env3:
  "inject_all_extensions env3 bundle0 tweaks3 ''/tmp'' False True world3 =
     (Inr (), world3\<lparr>trace := (Inject ''/P/App.app/App'' tweaks3 ''/tmp'' False, Inr True)
                           # ok_events appexA ''A'' @ ok_events appexB ''B'',
                  out := [injected_line ''A.appex'', injected_line ''B.appex'']\<rparr>)"
proof -
  have e: "exe_path (executable bundle0) = ''/P/App.app/App''" by (simp add: bundle0_def)
  have t: "trace world3 = []" "out world3 = []" by (simp_all add: world3_def)
  have g: "get_all_appex bundle0 (world3\<lparr>trace := h\<rparr>) = [appexA, appexB]" for h
    using get_all_appex_world3 by (simp add: get_all_appex_def)
  show ?thesis
    by (simp add: inject_all_extensions_def do_call_eq env3_answers e t g inject_env3)
qed

lemma inject_all_env4:
  "inject_all_extensions env4 bundle0 tweaks3 ''/tmp'' False True world3 =
     (Inl (Failure ''ldid''),
      world3\<lparr>trace := [(Inject ''/P/App.app/App'' tweaks3 ''/tmp'' False, Inr True),
                        (WriteEntitlements (appexA @ ''/A'') (appexA @ ''/cyan.entitlements''),
                         Inl (Failure ''ldid''))]\<rparr>)"
proof -
  have e: "exe_path (executable bundle0) = ''/P/App.app/App''" by (simp add: bundle0_def)
  have t: "trace world3 = []" "out world3 = []" by (simp_all add: world3_def)
  have g: "get_all_appex bundle0 (world3\<lparr>trace := h\<rparr>) = [appexA, appexB]" for h
    using get_all_appex_world3 by (simp add: get_all_appex_def)
  show ?thesis
    by (simp add: inject_all_extensions_def do_call_eq perform_env4 e t g inject_env4)
qed

lemma loop_env5:
  "extensions_loop env5 [appexA, appexB] tweaks3 False world3 =
     (Inr (), world3\<lparr>trace := ok_events appexB ''B'',
                  out := [skip_unreadable ''A.appex'', injected_line ''B.appex'']\<rparr>)"
proof -
  have t: "trace world3 = []" "out world3 = []" by (simp_all add: world3_def)
  have a: "inject_into_extension env5 appexA tweaks3 False w =
             (Inr (), print_line (skip_unreadable ''A.appex'') w)" for w
    by (simp add: inject_into_extension_cases new_app_bundle_env5 basename_appex)
  show ?thesis by (simp add: a inject_env5 print_line_def t)
qed

text \<open>
  \<^bold>\<open>C3\<close>, as stated, fails for the signing and injection primitives: nothing catches what
  they raise. With two extensions, both readable and neither encrypted, and the
  entitlements of the first one failing to be written, the pass ends with that error; the
  second extension, which on its own is injected without trouble, is never touched.
\<close>

theorem primitive_failure_counterexample:
  "get_all_appex bundle0 world3 = [appexA, appexB]
   \<and> inject_into_extension env4 appexB tweaks3 False world3 =
       (Inr (), world3\<lparr>trace := ok_events appexB ''B'', out := [injected_line ''B.appex'']\<rparr>)
   \<and> inject_all_extensions env4 bundle0 tweaks3 ''/tmp'' False True world3 =
       (Inl (Failure ''ldid''),
        world3\<lparr>trace := [(Inject ''/P/App.app/App'' tweaks3 ''/tmp'' False, Inr True),
                          (WriteEntitlements (appexA @ ''/A'') (appexA @ ''/cyan.entitlements''),
                           Inl (Failure ''ldid''))]\<rparr>)"
proof -
  have t: "trace world3 = []" "out world3 = []" by (simp_all add: world3_def)
  have "inject_into_extension env4 appexB tweaks3 False world3 =
       (Inr (), world3\<lparr>trace := ok_events appexB ''B'', out := [injected_line ''B.appex'']\<rparr>)"
    using appex_distinct
    by (simp add: inject_into_extension_cases new_app_bundle_env4 exe_bundles env3_answers
          dylib_keys_tweaks3 injection_def and_then_def do_call_eq basename_appex reference_def
          ok_events_def print_line_def perform_env4 t)
  with get_all_appex_world3 inject_all_env4 show ?thesis by (intro conjI)
qed

text \<open>
  The amended statement where the first extension has no readable metadata document, and
  where its entitlements cannot be written.
\<close>

theorem skipped_extension_is_isolated_witness:
  "new_app_bundle env5 appexA (trace world3) = Inl (Failure ''unreadable'')
   \<and> is_Exception (Failure ''unreadable'')
   \<and> extensions_loop env5 ([] @ appexA # [appexB]) tweaks3 False world3 =
       extensions_loop env5 [appexB] tweaks3 False
         (print_line (skip_unreadable (basename appexA)) world3)
   \<and> extensions_loop env5 [appexA, appexB] tweaks3 False world3 =
       (Inr (), world3\<lparr>trace := ok_events appexB ''B'',
                    out := [skip_unreadable ''A.appex'', injected_line ''B.appex'']\<rparr>)
   \<and> perform env4 (WriteEntitlements (appexA @ ''/A'') (appexA @ ''/cyan.entitlements''))
         (trace world3) = Inl (Failure ''ldid'')
   \<and> extensions_loop env4 [appexA, appexB] tweaks3 False world3 =
       (Inl (Failure ''ldid''),
        world3\<lparr>trace := [(WriteEntitlements (appexA @ ''/A'') (appexA @ ''/cyan.entitlements''),
                           Inl (Failure ''ldid''))]\<rparr>)"
proof -
  have n: "new_app_bundle env5 appexA (trace world3) = Inl (Failure ''unreadable'')"
    by (rule new_app_bundle_env5)
  have pre: "extensions_loop env5 [] tweaks3 False world3 = (Inr (), world3)" by simp
  note thm5 = skipped_extension_is_isolated [of env5 tweaks3 False appexA]
  from thm5 [THEN conjunct1, rule_format, of "[]" world3 "()" world3 "[appexB]"] pre n
  have first: "extensions_loop env5 ([] @ appexA # [appexB]) tweaks3 False world3 =
       extensions_loop env5 [appexB] tweaks3 False
         (print_line (skip_unreadable (basename appexA)) world3)" by simp
  have t: "trace world3 = []" by (simp add: world3_def)
  let ?ev = "(WriteEntitlements (appexA @ ''/A'') (appexA @ ''/cyan.entitlements''),
              Inl (Failure ''ldid'') :: error + bool)"
  let ?w2 = "world3\<lparr>trace := [?ev]\<rparr>"
  have run4: "inject_into_extension env4 appexA tweaks3 False world3 = (Inl (Failure ''ldid''), ?w2)"
    by (simp add: inject_env4 t)
  note thm4 = skipped_extension_is_isolated [of env4 tweaks3 False appexA]
  from thm4 [THEN conjunct2, THEN conjunct2, THEN conjunct1, rule_format, OF run4]
  obtain evs where evs: "trace ?w2 = trace world3 @ evs"
    and stop: "\<forall>c e. (c, Inl e) \<in> set evs \<longrightarrow>
        (Inl (Failure ''ldid'') :: error + unit) = Inl e
        \<and> (\<forall>post. extensions_loop env4 (appexA # post) tweaks3 False world3 = (Inl e, ?w2))"
    by (elim exE conjE)
  from evs have "evs = [?ev]" by (simp add: t)
  then have "?ev \<in> set evs" by simp
  with stop have "extensions_loop env4 (appexA # [appexB]) tweaks3 False world3
       = (Inl (Failure ''ldid''), ?w2)" by blast
  moreover have "perform env4 (WriteEntitlements (appexA @ ''/A'') (appexA @ ''/cyan.entitlements''))
         (trace world3) = Inl (Failure ''ldid'')" by (simp add: perform_env4)
  ultimately show ?thesis using n first loop_env5 by simp
qed

text \<open>
  A run over two extensions with the run-path strategy.
\<close>

theorem extension_references_witness:
  "inject_all_extensions env3 bundle0 tweaks3 ''/tmp'' False True world3 =
     (Inr (), world3\<lparr>trace := (Inject ''/P/App.app/App'' tweaks3 ''/tmp'' False, Inr True)
                           # ok_events appexA ''A'' @ ok_events appexB ''B'',
                  out := [injected_line ''A.appex'', injected_line ''B.appex'']\<rparr>)
   \<and> (\<exists>k v. (k, v) \<in> set tweaks3 \<and> endswith k ''.dylib''
         \<and> ''@rpath/t.dylib'' = ''@rpath/'' @ k
         \<and> \<not> str_in ''../../'' ''@rpath/t.dylib''
         \<and> split_on (CHR ''/'') ''@rpath/t.dylib'' = [''@rpath'', k])"
proof -
  let ?ev = "(InjFunc (appexA @ ''/'' @ ''A'') ''@rpath/t.dylib'', Inr True :: error + bool)"
  have t: "trace world3 = []" by (simp add: world3_def)
  from extension_references [OF inject_all_env3] obtain evs where
    evs: "(Inject ''/P/App.app/App'' tweaks3 ''/tmp'' False, Inr True)
            # ok_events appexA ''A'' @ ok_events appexB ''B'' = evs"
    and all: "\<forall>ev\<in>set evs. \<forall>exe ref. fst ev = InjFunc exe ref \<longrightarrow>
          (\<exists>k v. (k, v) \<in> set tweaks3 \<and> endswith k ''.dylib''
             \<and> ref = (if False then ''@executable_path/../../'' @ k else ''@rpath/'' @ k)
             \<and> (False \<longrightarrow> str_in ''../../'' ref)
             \<and> (CHR ''/'' \<notin> set k \<longrightarrow>
                   (str_in ''../../'' ref \<longleftrightarrow> False)
                 \<and> split_on (CHR ''/'') ref =
                     (if False then [''@executable_path'', ''..'', ''..'', k]
                      else [''@rpath'', k])))"
    by (auto simp: t)
  have "?ev \<in> set evs" unfolding evs [symmetric] by (simp add: ok_events_def)
  with all obtain k v where kv: "(k, v) \<in> set tweaks3" "endswith k ''.dylib''"
    "''@rpath/t.dylib'' = ''@rpath/'' @ k"
    and rest: "CHR ''/'' \<notin> set k \<longrightarrow>
                   (str_in ''../../'' ''@rpath/t.dylib'' \<longleftrightarrow> False)
                 \<and> split_on (CHR ''/'') ''@rpath/t.dylib'' = [''@rpath'', k]"
    by fastforce
  from kv(3) have "k = ''t.dylib''" by simp
  with rest have "\<not> str_in ''../../'' ''@rpath/t.dylib''"
    "split_on (CHR ''/'') ''@rpath/t.dylib'' = [''@rpath'', k]" by simp_all
  with kv inject_all_env3 show ?thesis by blast
qed

text \<open>
  \<^bold>\<open>C4\<close>, as stated, fails for a key that holds a slash: the method filters on the suffix
  alone and writes the key as it is. With the run-path strategy the key
  \<^verbatim>\<open>a/../../b.dylib\<close> gives a reference that contains \<^verbatim>\<open>../../\<close>; with the path-relative
  strategy the key \<^verbatim>\<open>../b.dylib\<close> gives three ascents.
\<close>

theorem slash_key_counterexample:
  "endswith ''a/../../b.dylib'' ''.dylib''
   \<and> inject_into_extension env3 appexA tweaks_nested False world3 =
       (Inr (), world3\<lparr>trace :=
          [(WriteEntitlements (appexA @ ''/A'') (appexA @ ''/cyan.entitlements''), Inr True),
           (RemoveSignature (appexA @ ''/A''), Inr True),
           (InjFunc (appexA @ ''/A'') ''@rpath/a/../../b.dylib'', Inr True),
           (InjWrite (appexA @ ''/A''), Inr True),
           (SignWithEntitlements (appexA @ ''/A'') (appexA @ ''/cyan.entitlements''), Inr True)],
          out := [injected_line ''A.appex'']\<rparr>)
   \<and> str_in ''../../'' ''@rpath/a/../../b.dylib''
   \<and> endswith ''../b.dylib'' ''.dylib''
   \<and> split_on (CHR ''/'') (reference True ''../b.dylib'') =
       [''@executable_path'', ''..'', ''..'', ''..'', ''b.dylib'']"
proof -
  have t: "trace world3 = []" "out world3 = []" by (simp_all add: world3_def)
  have k: "dylib_keys tweaks_nested = [''a/../../b.dylib'']"
    by (simp add: dylib_keys_def tweaks_nested_def endswith_def suffix_to_prefix)
  have run: "inject_into_extension env3 appexA tweaks_nested False world3 =
       (Inr (), world3\<lparr>trace :=
          [(WriteEntitlements (appexA @ ''/A'') (appexA @ ''/cyan.entitlements''), Inr True),
           (RemoveSignature (appexA @ ''/A''), Inr True),
           (InjFunc (appexA @ ''/A'') ''@rpath/a/../../b.dylib'', Inr True),
           (InjWrite (appexA @ ''/A''), Inr True),
           (SignWithEntitlements (appexA @ ''/A'') (appexA @ ''/cyan.entitlements''), Inr True)],
          out := [injected_line ''A.appex'']\<rparr>)"
    by (simp add: inject_into_extension_cases new_app_bundle_env3 exe_bundles env3_answers
          k injection_def and_then_def do_call_eq basename_appex reference_def print_line_def t)
  have "endswith ''a/../../b.dylib'' ''.dylib''" "endswith ''../b.dylib'' ''.dylib''"
    by (simp_all add: endswith_def suffix_to_prefix)
  moreover have "str_in ''../../'' ''@rpath/a/../../b.dylib''"
    by (simp add: str_in_def sublist_Cons_right)
  moreover have "split_on (CHR ''/'') (reference True ''../b.dylib'') =
       [''@executable_path'', ''..'', ''..'', ''..'', ''b.dylib'']"
    by (simp add: reference_def)
  ultimately show ?thesis using run by (intro conjI)
qed

text \<open>
  One extension with entitlements: five calls, the flush fourth and the re-sign last.
\<close>

theorem flush_before_resign_witness:
  "inject_into_extension env3 appexA tweaks3 False world3 =
     (Inr (), world3\<lparr>trace := ok_events appexA ''A'', out := [injected_line ''A.appex'']\<rparr>)
   \<and> map fst (ok_events appexA ''A'') =
       [WriteEntitlements (appexA @ ''/A'') (appexA @ ''/cyan.entitlements''),
        RemoveSignature (appexA @ ''/A''),
        InjFunc (appexA @ ''/A'') ''@rpath/t.dylib'',
        InjWrite (appexA @ ''/A''),
        SignWithEntitlements (appexA @ ''/A'') (appexA @ ''/cyan.entitlements'')]
   \<and> SignWithEntitlements (exe_path (executable bundleA)) (appexA @ ''/cyan.entitlements'')
        \<in> fst ` set (ok_events appexA ''A'')"
proof -
  have t: "trace world3 = []" "out world3 = []" by (simp_all add: world3_def)
  have run: "inject_into_extension env3 appexA tweaks3 False world3 =
     (Inr (), world3\<lparr>trace := ok_events appexA ''A'', out := [injected_line ''A.appex'']\<rparr>)"
    by (simp add: inject_env3 t)
  have k: "dylib_keys tweaks3 \<noteq> []" by (simp add: dylib_keys_tweaks3)
  from flush_before_resign [OF new_app_bundle_env3(1) env3_answers(1) k run]
  obtain has_ent evs where
    "perform env3 (WriteEntitlements (exe_path (executable bundleA))
        (appexA @ ''/cyan.entitlements'')) (trace world3) = Inr has_ent"
    "ok_events appexA ''A'' = evs"
    "SignWithEntitlements (exe_path (executable bundleA)) (appexA @ ''/cyan.entitlements'')
        \<in> fst ` set evs \<longleftrightarrow> has_ent"
    by (auto simp: t)
  then have "SignWithEntitlements (exe_path (executable bundleA)) (appexA @ ''/cyan.entitlements'')
        \<in> fst ` set (ok_events appexA ''A'')"
    by (simp add: env3_answers)
  moreover have "map fst (ok_events appexA ''A'') =
       [WriteEntitlements (appexA @ ''/A'') (appexA @ ''/cyan.entitlements''),
        RemoveSignature (appexA @ ''/A''),
        InjFunc (appexA @ ''/A'') ''@rpath/t.dylib'',
        InjWrite (appexA @ ''/A''),
        SignWithEntitlements (appexA @ ''/A'') (appexA @ ''/cyan.entitlements'')]"
    by (simp add: ok_events_def)
  ultimately show ?thesis using run by (intro conjI)
qed

text \<open>
  A tweak set holding only a framework.
\<close>

theorem no_dylib_no_mutation_witness:
  "\<not> endswith ''F.framework'' ''.dylib''
   \<and> inject_into_extension env3 appexA tweaks0 False world3 = (Inr (), world3)"
proof -
  have h: "\<forall>(k, v)\<in>set tweaks0. \<not> endswith k ''.dylib''"
    by (simp add: tweaks0_def endswith_def suffix_to_prefix)
  from no_dylib_no_mutation [OF h, of env3 appexA False world3]
  obtain r w' where run: "inject_into_extension env3 appexA tweaks0 False world3 = (r, w')"
    and same: "\<forall>ext :: app_bundle.
          new_app_bundle env3 appexA (trace world3) = Inr ext
          \<and> is_encrypted env3 (exe_path (executable ext)) (trace world3) = Inr False
          \<longrightarrow> r = Inr () \<and> w' = world3" by blast
  from same new_app_bundle_env3(1) env3_answers(1) have "r = Inr () \<and> w' = world3" by blast
  with run h show ?thesis by (simp add: tweaks0_def)
qed

subsection \<open>The encrypted-extension filter\<close>

lemma strip_prefix_iff: "strip_prefix a s = Some r \<longleftrightarrow> s = a @ r"
  by (induction a s rule: strip_prefix.induct) auto

lemma split_on_nonempty: "split_on c s \<noteq> []"
  by (induction s) (auto split: list.splits)

lemma split_on_append:
  "split_on c (a @ c # z) = split_on c a @ split_on c z"
proof (induction a)
  case Nil
  show ?case by simp
next
  case (Cons x a)
  show ?case
  proof (cases "split_on c a")
    case Nil
    with split_on_nonempty show ?thesis by blast
  next
    case (Cons y ys)
    with Cons.IH show ?thesis by simp
  qed
qed

lemma match_two_level_prefix:
  "match_two_level root suf p \<Longrightarrow> prefix root p"
  by (auto simp: match_two_level_def strip_prefix_iff split: option.splits)

lemma match_two_level_not_nested:
  assumes "match_two_level root suf p" "match_two_level root suf q" "prefix (p @ ''/'') q"
  shows False
proof -
  from assms(1) obtain rp x y where p: "p = (root @ ''/'') @ rp"
    and sp: "split_on (CHR ''/'') rp = [x, y]"
    by (auto simp: match_two_level_def strip_prefix_iff split: option.splits list.splits)
  from assms(3) obtain z where q: "q = p @ ''/'' @ z" by (auto simp: prefix_def)
  then have "q = (root @ ''/'') @ (rp @ CHR ''/'' # z)" using p by simp
  then have "strip_prefix (root @ ''/'') q = Some (rp @ CHR ''/'' # z)"
    by (simp only: strip_prefix_iff)
  moreover have "length (split_on (CHR ''/'') (rp @ CHR ''/'' # z)) \<ge> 3"
    using sp split_on_nonempty [of "CHR ''/''" z]
    by (cases "split_on (CHR ''/'') z") (simp_all add: split_on_append)
  ultimately show False using assms(2)
    by (auto simp: match_two_level_def split: list.splits)
qed

lemma under_same_entry:
  assumes "match_two_level root suf p" "match_two_level root suf q"
    and "under p k" "under q k"
  shows "p = q"
proof (rule ccontr)
  assume ne: "p \<noteq> q"
  have nest: "prefix (p @ ''/'') q \<or> prefix (q @ ''/'') p"
  proof -
    consider "k = p" "k = q" | "k = p" "prefix (q @ ''/'') k" | "prefix (p @ ''/'') k" "k = q"
      | "prefix (p @ ''/'') k" "prefix (q @ ''/'') k"
      using assms(3,4) by (auto simp: under_def)
    then show ?thesis
    proof cases
      case 1 with ne show ?thesis by simp
    next
      case 2 then show ?thesis by simp
    next
      case 3 then show ?thesis by simp
    next
      case 4
      then have "prefix (p @ ''/'') (q @ ''/'') \<or> prefix (q @ ''/'') (p @ ''/'')"
        by (rule prefix_same_cases)
      then show ?thesis using ne by (auto simp: prefix_snoc)
    qed
  qed
  with match_two_level_not_nested assms(1,2) show False by blast
qed

lemma map_of_filter_key:
  "map_of (filter (\<lambda>(k, n). P k) t) p = (if P p then map_of t p else None)"
  by (induction t) auto

lemma delete_entry_subset: "set (delete_entry p t) \<subseteq> set t"
  by (auto simp: delete_entry_def split: option.splits node.splits)

lemma delete_entry_keeps:
  "e \<in> set t \<Longrightarrow> \<not> under p (fst e) \<Longrightarrow> e \<in> set (delete_entry p t)"
  by (auto simp: delete_entry_def under_def split: option.splits node.splits)

lemma delete_entry_gone: "\<not> path_exists (delete_entry p t) p"
  by (auto simp: delete_entry_def path_exists_iff under_def split: option.splits node.splits
        dest: map_of_SomeD) (metis domIff dom_map_of_conv_image_fst image_eqI fst_conv)

lemma delete_entry_dir_gone:
  "map_of t p = Some Dir \<Longrightarrow> under p k \<Longrightarrow> \<not> path_exists (delete_entry p t) k"
  by (auto simp: delete_entry_def path_exists_iff)

lemma delete_entry_map_of:
  "\<not> under q p \<Longrightarrow> map_of (delete_entry q t) p = map_of t p"
  by (auto simp: delete_entry_def map_of_filter_key under_def split: option.splits node.splits)

lemma path_exists_mono: "set t' \<subseteq> set t \<Longrightarrow> path_exists t' k \<Longrightarrow> path_exists t k"
  by (auto simp: path_exists_iff)

lemma fold_delete_subset: "set (foldl (\<lambda>t p. delete_entry p t) t qs) \<subseteq> set t"
proof (induction qs arbitrary: t)
  case Nil
  show ?case by simp
next
  case (Cons q qs)
  from Cons.IH [of "delete_entry q t"] delete_entry_subset [of q t] show ?case by auto
qed

lemma fold_delete_keeps:
  "e \<in> set t \<Longrightarrow> \<forall>q\<in>set qs. \<not> under q (fst e)
     \<Longrightarrow> e \<in> set (foldl (\<lambda>t p. delete_entry p t) t qs)"
  by (induction qs arbitrary: t) (auto intro: delete_entry_keeps)

lemma fold_delete_gone:
  "q \<in> set qs \<Longrightarrow> \<not> path_exists (foldl (\<lambda>t p. delete_entry p t) t qs) q"
proof (induction qs arbitrary: t)
  case Nil
  then show ?case by simp
next
  case (Cons a qs)
  show ?case
  proof (cases "q \<in> set qs")
    case True
    with Cons.IH show ?thesis by simp
  next
    case False
    with Cons.prems have "a = q" by simp
    then show ?thesis
      using delete_entry_gone [of q t] fold_delete_subset [of "delete_entry q t" qs]
      by (auto dest: path_exists_mono)
  qed
qed

lemma fold_delete_dir_gone:
  assumes "q \<in> set qs" "\<forall>a\<in>set qs. match_two_level root suf a"
    and "map_of t q = Some Dir \<or> (\<forall>k. under q k \<longrightarrow> \<not> path_exists t k)"
    and "under q k"
  shows "\<not> path_exists (foldl (\<lambda>t p. delete_entry p t) t qs) k"
  using assms(1,2,3)
proof (induction qs arbitrary: t)
  case Nil
  then show ?case by simp
next
  case (Cons a qs)
  let ?t1 = "delete_entry a t"
  have clean: "\<forall>k. under q k \<longrightarrow> \<not> path_exists ?t1 k" if "a = q"
  proof (cases "map_of t q = Some Dir")
    case True
    with that show ?thesis by (auto dest: delete_entry_dir_gone)
  next
    case False
    with Cons.prems(3) have "\<forall>k. under q k \<longrightarrow> \<not> path_exists t k" by simp
    then show ?thesis using delete_entry_subset [of a t] by (auto dest: path_exists_mono)
  qed
  show ?case
  proof (cases "a = q")
    case True
    from clean [OF True] assms(4) have "\<not> path_exists ?t1 k" by simp
    then show ?thesis using fold_delete_subset [of ?t1 qs] by (auto dest: path_exists_mono)
  next
    case False
    with Cons.prems(1) have in_qs: "q \<in> set qs" by simp
    have "\<not> under a q"
    proof
      assume "under a q"
      moreover have "under q q" by (simp add: under_def)
      ultimately have "a = q"
        using under_same_entry [of root suf a q q] Cons.prems(2) in_qs by simp
      with False show False by simp
    qed
    then have "map_of ?t1 q = map_of t q" by (rule delete_entry_map_of)
    with Cons.prems(3) delete_entry_subset [of a t]
    have "map_of ?t1 q = Some Dir \<or> (\<forall>k. under q k \<longrightarrow> \<not> path_exists ?t1 k)"
      by (auto dest: path_exists_mono)
    with Cons.IH [OF in_qs] Cons.prems(2) show ?thesis by simp
  qed
qed

lemma remove_single:
  "str_in (path b) p \<Longrightarrow> \<exists>r. remove b [p] w = (Inr r, w\<lparr>fs := delete_entry p (fs w)\<rparr>)"
  by (cases "map_of (fs w) p")
     (auto simp: remove_def resolve_name_def path_exists_def rmtree_def os_remove_def
        delete_entry_def split: node.splits)

lemma new_app_bundle_bn:
  "new_app_bundle env p h = Inr ext \<Longrightarrow> plist ext ''CFBundleExecutable'' = Some (bn (executable ext))"
  by (auto simp: new_app_bundle_def split: sum.splits option.splits)

lemma encrypted_loop_ok:
  assumes "\<forall>p\<in>set ps. str_in (path b) p"
    and "\<forall>p\<in>set ps. \<exists>(ext :: app_bundle) enc. new_app_bundle env p (trace w) = Inr ext
            \<and> is_encrypted env (exe_path (executable ext)) (trace w) = Inr enc"
  shows "encrypted_loop env b ps removed w =
     (Inr (removed @ map (declared_name env (trace w))
                       (filter (reports_encrypted env (trace w)) ps)),
      w\<lparr>fs := foldl (\<lambda>t p. delete_entry p t) (fs w)
                (filter (reports_encrypted env (trace w)) ps)\<rparr>)"
  using assms
proof (induction ps arbitrary: removed w)
  case Nil
  show ?case by simp
next
  case (Cons p ps)
  from Cons.prems(2) obtain ext :: app_bundle and enc where
    ext: "new_app_bundle env p (trace w) = Inr ext"
    and enc: "is_encrypted env (exe_path (executable ext)) (trace w) = Inr enc" by auto
  have rest: "\<forall>p\<in>set ps. str_in (path b) p" using Cons.prems(1) by simp
  show ?case
  proof (cases enc)
    case False
    with ext enc have no: "\<not> reports_encrypted env (trace w) p"
      by (simp add: reports_encrypted_def)
    from Cons.IH [OF rest, of w removed] Cons.prems(2)
    show ?thesis using ext enc False no by simp
  next
    case True
    with ext enc have yes: "reports_encrypted env (trace w) p"
      by (simp add: reports_encrypted_def)
    from ext have name: "declared_name env (trace w) p = bn (executable ext)"
      by (simp add: declared_name_def new_app_bundle_bn)
    let ?w1 = "w\<lparr>fs := delete_entry p (fs w)\<rparr>"
    from Cons.prems(1) remove_single [of b p w] obtain r where
      rm: "remove b [p] w = (Inr r, ?w1)" by auto
    have "\<forall>p\<in>set ps. \<exists>(ext :: app_bundle) enc. new_app_bundle env p (trace ?w1) = Inr ext
            \<and> is_encrypted env (exe_path (executable ext)) (trace ?w1) = Inr enc"
      using Cons.prems(2) by simp
    from Cons.IH [OF rest this, of "removed @ [bn (executable ext)]"]
    show ?thesis using ext enc True yes name rm by simp
  qed
qed

lemma glob_two_level_set:
  "p \<in> set (glob_two_level root suf t) \<longleftrightarrow> p \<in> fst ` set t \<and> match_two_level root suf p"
  by (auto simp: glob_two_level_def)

text \<open>
  What the filter does where nothing raises. Let every extension package one level below a
  directory of the root answer the filter: its package view is constructed and its
  executable reports whether it is encrypted. Then \<^verbatim>\<open>remove_encrypted_extensions\<close> returns,
  makes no call on any executable and only deletes entries; an enumerated extension exists
  afterwards exactly when it did not report itself encrypted; an encrypted extension
  directory is gone with everything under it; every entry of an extension that is not
  encrypted, and every entry outside the encrypted extensions, is still there; the line
  printed lists the declared executable names of the encrypted extensions, in enumeration
  order; and with no encrypted extension the tree is unchanged and the line says that none
  was found.
\<close>

theorem encrypted_filter:
  assumes "\<forall>p\<in>set (glob_two_level (path b) ''.appex'' (fs w)).
             \<exists>(ext :: app_bundle) enc. new_app_bundle env p (trace w) = Inr ext
               \<and> is_encrypted env (exe_path (executable ext)) (trace w) = Inr enc"
  shows "\<exists>w'. remove_encrypted_extensions env b w = (Inr (), w')
     \<and> trace w' = trace w
     \<and> set (fs w') \<subseteq> set (fs w)
     \<and> (\<forall>p\<in>set (glob_two_level (path b) ''.appex'' (fs w)).
           path_exists (fs w') p \<longleftrightarrow> \<not> reports_encrypted env (trace w) p)
     \<and> (\<forall>p\<in>set (glob_two_level (path b) ''.appex'' (fs w)).
           reports_encrypted env (trace w) p \<and> map_of (fs w) p = Some Dir
           \<longrightarrow> (\<forall>k. under p k \<longrightarrow> \<not> path_exists (fs w') k))
     \<and> (\<forall>p\<in>set (glob_two_level (path b) ''.appex'' (fs w)).
           \<not> reports_encrypted env (trace w) p
           \<longrightarrow> (\<forall>e\<in>set (fs w). under p (fst e) \<longrightarrow> e \<in> set (fs w')))
     \<and> (\<forall>e\<in>set (fs w).
           (\<forall>p\<in>set (glob_two_level (path b) ''.appex'' (fs w)).
              reports_encrypted env (trace w) p \<longrightarrow> \<not> under p (fst e))
           \<longrightarrow> e \<in> set (fs w'))
     \<and> out w' = out w @ [removed_report
            (map (declared_name env (trace w))
               (filter (reports_encrypted env (trace w))
                  (glob_two_level (path b) ''.appex'' (fs w))))]
     \<and> ((\<forall>p\<in>set (glob_two_level (path b) ''.appex'' (fs w)).
            \<not> reports_encrypted env (trace w) p)
          \<longrightarrow> fs w' = fs w \<and> out w' = out w @ [''[?] no encrypted plugins''])"
proof -
  let ?ps = "glob_two_level (path b) ''.appex'' (fs w)"
  let ?enc = "reports_encrypted env (trace w)"
  let ?qs = "filter ?enc ?ps"
  let ?t' = "foldl (\<lambda>t p. delete_entry p t) (fs w) ?qs"
  let ?names = "map (declared_name env (trace w)) ?qs"
  let ?w' = "print_line (removed_report ?names) (w\<lparr>fs := ?t'\<rparr>)"
  have m: "\<forall>p\<in>set ?ps. match_two_level (path b) ''.appex'' p"
    by (simp add: glob_two_level_set)
  then have inside: "\<forall>p\<in>set ?ps. str_in (path b) p"
    by (auto simp: str_in_def dest: match_two_level_prefix)
  from encrypted_loop_ok [OF inside assms, of "[]"]
  have run: "remove_encrypted_extensions env b w = (Inr (), ?w')"
    by (simp add: remove_encrypted_extensions_def)
  have fs': "fs ?w' = ?t'" and tr: "trace ?w' = trace w"
    and out': "out ?w' = out w @ [removed_report ?names]"
    by (simp_all add: print_line_def)
  have sub: "set ?t' \<subseteq> set (fs w)" by (rule fold_delete_subset)
  have mq: "\<forall>a\<in>set ?qs. match_two_level (path b) ''.appex'' a" using m by simp
  have keep: "e \<in> set ?t'"
    if "e \<in> set (fs w)" "\<forall>p\<in>set ?ps. ?enc p \<longrightarrow> \<not> under p (fst e)" for e
    using that by (intro fold_delete_keeps) auto
  have own: "e \<in> set ?t'"
    if p: "p \<in> set ?ps" "\<not> ?enc p" and e: "e \<in> set (fs w)" "under p (fst e)" for p e
  proof (rule keep [OF e(1)], intro ballI impI notI)
    fix q assume q: "q \<in> set ?ps" "?enc q" "under q (fst e)"
    with p e m have "p = q" using under_same_entry [of "path b" "''.appex''" p q "fst e"] by simp
    with p(2) q(2) show False by simp
  qed
  have exists: "path_exists ?t' p \<longleftrightarrow> \<not> ?enc p" if p: "p \<in> set ?ps" for p
  proof (cases "?enc p")
    case True
    with p have "p \<in> set ?qs" by simp
    then have "\<not> path_exists ?t' p" by (rule fold_delete_gone)
    with True show ?thesis by simp
  next
    case False
    from p obtain n where e: "(p, n) \<in> set (fs w)" by (auto simp: glob_two_level_set)
    have "under p (fst (p, n))" by (simp add: under_def)
    with own [OF p False e] have "(p, n) \<in> set ?t'" by simp
    then have "path_exists ?t' p" by (force simp: path_exists_iff)
    with False show ?thesis by simp
  qed
  have gone: "\<not> path_exists ?t' k"
    if "p \<in> set ?ps" "?enc p" "map_of (fs w) p = Some Dir" "under p k" for p k
    using that mq by (intro fold_delete_dir_gone [of p ?qs "path b" "''.appex''"]) auto
  have none: "fs ?w' = fs w \<and> out ?w' = out w @ [''[?] no encrypted plugins'']"
    if "\<forall>p\<in>set ?ps. \<not> ?enc p"
  proof -
    from that have "?qs = []" by (simp add: filter_empty_conv)
    then show ?thesis by (simp add: print_line_def removed_report_def)
  qed
  show ?thesis
  proof (intro exI [of _ ?w'] conjI)
    show "remove_encrypted_extensions env b w = (Inr (), ?w')" by (rule run)
    show "trace ?w' = trace w" by (rule tr)
    show "set (fs ?w') \<subseteq> set (fs w)" unfolding fs' by (rule sub)
    show "\<forall>p\<in>set ?ps. path_exists (fs ?w') p \<longleftrightarrow> \<not> ?enc p"
      unfolding fs' using exists by blast
    show "\<forall>p\<in>set ?ps. ?enc p \<and> map_of (fs w) p = Some Dir
           \<longrightarrow> (\<forall>k. under p k \<longrightarrow> \<not> path_exists (fs ?w') k)"
      unfolding fs' using gone by blast
    show "\<forall>p\<in>set ?ps. \<not> ?enc p
           \<longrightarrow> (\<forall>e\<in>set (fs w). under p (fst e) \<longrightarrow> e \<in> set (fs ?w'))"
      unfolding fs' using own by blast
    show "\<forall>e\<in>set (fs w). (\<forall>p\<in>set ?ps. ?enc p \<longrightarrow> \<not> under p (fst e)) \<longrightarrow> e \<in> set (fs ?w')"
      unfolding fs' using keep by blast
    show "out ?w' = out w @ [removed_report ?names]" by (rule out')
    show "(\<forall>p\<in>set ?ps. \<not> ?enc p)
          \<longrightarrow> fs ?w' = fs w \<and> out ?w' = out w @ [''[?] no encrypted plugins'']"
      using none by blast
  qed
qed

lemma glob_world6: "glob_two_level (path bundle0) ''.appex'' (fs world6) = [extA, extB]"
  by (simp add: glob_eval bundle0_def world6_def tree6_def extA_def extB_def str_eval)

lemma ext_distinct: "extA \<noteq> extB" "extA @ ''/A'' \<noteq> extB @ ''/B''"
  by (simp_all add: extA_def extB_def)

lemma bundles_env6:
  "new_app_bundle env6 extA h =
     Inr \<lparr>path = extA, plist = plist_of ''A'',
          executable = \<lparr>exe_path = extA @ ''/A'', bn = ''A''\<rparr>, cached_executables = None\<rparr>"
  "new_app_bundle env6 extB h =
     Inr \<lparr>path = extB, plist = plist_of ''B'',
          executable = \<lparr>exe_path = extB @ ''/B'', bn = ''B''\<rparr>, cached_executables = None\<rparr>"
  using ext_distinct by (simp_all add: new_app_bundle_def env6_def plist_of_def)

lemma encrypted_env6: "is_encrypted env6 p h = Inr (p = extA @ ''/A'')"
  by (simp add: env6_def)

lemma reports_env6: "reports_encrypted env6 h extA" "\<not> reports_encrypted env6 h extB"
  using ext_distinct by (simp_all add: reports_encrypted_def bundles_env6 encrypted_env6)

lemma remove_extA:
  "remove bundle0 [extA] (w\<lparr>fs := tree6\<rparr>) = (Inr True, w\<lparr>fs := tree6'\<rparr>)"
  by (simp add: remove_def bundle0_def extA_def tree6_def tree6'_def str_eval rmtree_def)

lemma filter_world6:
  "remove_encrypted_extensions env6 bundle0 world6 =
     (Inr (), world6\<lparr>fs := tree6', out := [''[*] removed encrypted plugins: A'']\<rparr>)"
proof -
  have w: "world6 = world6\<lparr>fs := tree6\<rparr>" "trace world6 = []" "out world6 = []"
    by (simp_all add: world6_def)
  have "encrypted_loop env6 bundle0 [extA, extB] [] (world6\<lparr>fs := tree6\<rparr>) =
          (Inr [''A''], world6\<lparr>fs := tree6'\<rparr>)"
    using ext_distinct by (simp add: bundles_env6 encrypted_env6 remove_extA)
  with w(1) have "encrypted_loop env6 bundle0 [extA, extB] [] world6 =
          (Inr [''A''], world6\<lparr>fs := tree6'\<rparr>)" by simp
  then show ?thesis
    by (simp add: remove_encrypted_extensions_def glob_world6 removed_report_def
          print_line_def w(3))
qed

text \<open>
  The scenario of the specification: \<^verbatim>\<open>A.appex\<close> is removed entirely, \<^verbatim>\<open>B.appex\<close> and its
  files stay, and the report names \<^verbatim>\<open>A\<close>.
\<close>

theorem encrypted_filter_witness:
  "glob_two_level (path bundle0) ''.appex'' (fs world6) = [extA, extB]
   \<and> reports_encrypted env6 (trace world6) extA
   \<and> \<not> reports_encrypted env6 (trace world6) extB
   \<and> remove_encrypted_extensions env6 bundle0 world6 =
       (Inr (), world6\<lparr>fs := tree6', out := [''[*] removed encrypted plugins: A'']\<rparr>)
   \<and> \<not> path_exists tree6' extA
   \<and> path_exists tree6' extB"
proof -
  have h: "\<forall>p\<in>set (glob_two_level (path bundle0) ''.appex'' (fs world6)).
             \<exists>(ext :: app_bundle) enc. new_app_bundle env6 p (trace world6) = Inr ext
               \<and> is_encrypted env6 (exe_path (executable ext)) (trace world6) = Inr enc"
    by (simp add: glob_world6 bundles_env6 encrypted_env6)
  from encrypted_filter [OF h] obtain w' where
    run: "remove_encrypted_extensions env6 bundle0 world6 = (Inr (), w')"
    and ex: "\<forall>p\<in>set (glob_two_level (path bundle0) ''.appex'' (fs world6)).
           path_exists (fs w') p \<longleftrightarrow> \<not> reports_encrypted env6 (trace world6) p"
    by blast
  from run have w': "w' = world6\<lparr>fs := tree6', out := [''[*] removed encrypted plugins: A'']\<rparr>"
    by (simp add: filter_world6)
  from ex have "\<not> path_exists tree6' extA" "path_exists tree6' extB"
    by (simp_all add: glob_world6 w' reports_env6)
  with glob_world6 reports_env6 filter_world6 show ?thesis by (intro conjI)
qed

lemma bundles_env7:
  "new_app_bundle env7 extA h = Inl (Failure ''unreadable'')"
  "new_app_bundle env7 extB h =
     Inr \<lparr>path = extB, plist = plist_of ''B'',
          executable = \<lparr>exe_path = extB @ ''/B'', bn = ''B''\<rparr>, cached_executables = None\<rparr>"
  using ext_distinct by (simp_all add: new_app_bundle_def env7_def env6_def plist_of_def)

lemma bundles_env8:
  "new_app_bundle env8 extA h =
     Inr \<lparr>path = extA, plist = plist_of ''A'',
          executable = \<lparr>exe_path = extA @ ''/A'', bn = ''A''\<rparr>, cached_executables = None\<rparr>"
  "new_app_bundle env8 extB h = Inl (Failure ''unreadable'')"
  using ext_distinct by (simp_all add: new_app_bundle_def env8_def env6_def plist_of_def)

text \<open>
  \<^bold>\<open>C6\<close> is not met by the method where one extension has no readable metadata document:
  the construction of its package view is not guarded here (it is in
  \<^verbatim>\<open>_inject_into_extension\<close>), so the filter raises there. With \<^verbatim>\<open>A.appex\<close> unreadable and
  \<^verbatim>\<open>B.appex\<close> encrypted, the filter raises at once and \<^verbatim>\<open>B.appex\<close> stays. With \<^verbatim>\<open>A.appex\<close>
  encrypted and \<^verbatim>\<open>B.appex\<close> unreadable, \<^verbatim>\<open>A.appex\<close> is deleted and the filter raises before
  it reports anything.
\<close>

theorem unreadable_sibling_aborts_filter:
  "glob_two_level (path bundle0) ''.appex'' (fs world6) = [extA, extB]
   \<and> new_app_bundle env7 extA (trace world6) = Inl (Failure ''unreadable'')
   \<and> reports_encrypted env7 (trace world6) extB
   \<and> remove_encrypted_extensions env7 bundle0 world6 = (Inl (Failure ''unreadable''), world6)
   \<and> path_exists (fs world6) extB
   \<and> reports_encrypted env8 (trace world6) extA
   \<and> new_app_bundle env8 extB (trace world6) = Inl (Failure ''unreadable'')
   \<and> remove_encrypted_extensions env8 bundle0 world6 =
       (Inl (Failure ''unreadable''), world6\<lparr>fs := tree6'\<rparr>)
   \<and> out (world6\<lparr>fs := tree6'\<rparr>) = []"
proof -
  have w: "world6 = world6\<lparr>fs := tree6\<rparr>" "out world6 = []" "fs world6 = tree6"
    by (simp_all add: world6_def)
  have r7: "remove_encrypted_extensions env7 bundle0 world6 = (Inl (Failure ''unreadable''), world6)"
    by (simp add: remove_encrypted_extensions_def glob_world6 bundles_env7)
  have e8: "is_encrypted env8 p h = Inr (p = extA @ ''/A'')" for p h
    by (simp add: env8_def env6_def)
  have "encrypted_loop env8 bundle0 [extA, extB] [] (world6\<lparr>fs := tree6\<rparr>) =
          (Inl (Failure ''unreadable''), world6\<lparr>fs := tree6'\<rparr>)"
    by (simp add: bundles_env8 e8 remove_extA)
  with w(1) have "encrypted_loop env8 bundle0 [extA, extB] [] world6 =
          (Inl (Failure ''unreadable''), world6\<lparr>fs := tree6'\<rparr>)" by simp
  then have r8: "remove_encrypted_extensions env8 bundle0 world6 =
       (Inl (Failure ''unreadable''), world6\<lparr>fs := tree6'\<rparr>)"
    by (simp add: remove_encrypted_extensions_def glob_world6)
  have e7: "is_encrypted env7 p h = Inr (p = extB @ ''/B'')" for p h
    by (simp add: env7_def)
  have "reports_encrypted env7 (trace world6) extB"
    by (simp add: reports_encrypted_def bundles_env7 e7)
  moreover have "reports_encrypted env8 (trace world6) extA"
    by (simp add: reports_encrypted_def bundles_env8 e8)
  moreover have "path_exists (fs world6) extB"
    by (simp add: w(3) tree6_def extB_def path_exists_def)
  moreover have "out (world6\<lparr>fs := tree6'\<rparr>) = []" by (simp add: w(2))
  ultimately show ?thesis using glob_world6 bundles_env7(1) bundles_env8(2) r7 r8
    by (intro conjI)
qed

end
